(* ===== verification/Prelude.thy ===== *)
theory Prelude
  imports Main "HOL-Library.Multiset" "HOL-Library.Char_ord" "HOL-Library.Product_Lexorder"
begin

text \<open>
  Shared vocabulary of the development: the types of association entries, the
  collections of facts the component theories feed to the simplifier, and generic
  lemmas on lists that are sorted by a key (the shape of every flat container of
  \<^verbatim>\<open>src/inc/associated_collection.hpp\<close>), on \<open>takeWhile\<close>/\<open>dropWhile\<close>
  (the split points that a binary search computes), on counting by key, and on
  updating one element of a list (the vector of queues of the thread pool, a worker's
  state).
\<close>

named_theorems flat_simps "equations that evaluate the flat-container model on sorted input"
named_theorems ac_inv "facts that carry the invariants of an associated_collection"

type_synonym ('k, 'f) assoc = "'k \<times> 'f"
type_synonym ('k, 'f) assoc_table = "('k \<times> 'f) list"

section \<open>Counting entries by key, split points\<close>

definition count_key :: "'k \<Rightarrow> ('k \<times> 'v) list \<Rightarrow> nat" where
  "count_key k xs = length (filter (\<lambda>a. fst a = k) xs)"

text \<open>
  A predicate that is closed downwards along a sort key splits a list sorted by
  that key into a prefix where it holds and a suffix where it fails: this is the
  precondition under which a binary search finds the split point.
\<close>

definition down_closed :: "('a \<Rightarrow> 'b::linorder) \<Rightarrow> ('a \<Rightarrow> bool) \<Rightarrow> bool" where
  "down_closed f P \<longleftrightarrow> (\<forall>x y. f x \<le> f y \<longrightarrow> P y \<longrightarrow> P x)"

lemma count_key_simps [simp]:
  "count_key k [] = 0"
  "count_key k (a # xs) = (if fst a = k then Suc (count_key k xs) else count_key k xs)"
  "count_key k (xs @ ys) = count_key k xs + count_key k ys"
  by (simp_all add: count_key_def)

lemma count_key_zero_iff: "count_key k xs = 0 \<longleftrightarrow> (\<forall>a\<in>set xs. fst a \<noteq> k)"
  by (simp add: count_key_def filter_empty_conv)

lemma count_key_pos: "a \<in> set xs \<Longrightarrow> 0 < count_key (fst a) xs"
  by (auto simp: count_key_def filter_empty_conv)

lemma count_key_filter_le: "count_key k (filter P xs) \<le> count_key k xs"
  by (induction xs) auto

lemma count_key_drop_le: "count_key k (drop n xs) \<le> count_key k xs"
proof -
  have "count_key k xs = count_key k (take n xs) + count_key k (drop n xs)"
    by (metis append_take_drop_id count_key_simps(3))
  then show ?thesis by simp
qed

section \<open>Split points of a list\<close>

lemma takeWhile_nth_P: "j < length (takeWhile P xs) \<Longrightarrow> P (xs ! j)"
  by (metis nth_mem set_takeWhileD takeWhile_nth)

lemma dropWhile_part_nth:
  assumes "\<forall>y\<in>set (dropWhile P xs). \<not> P y" "length (takeWhile P xs) \<le> j" "j < length xs"
  shows "\<not> P (xs ! j)"
proof -
  have len: "length (takeWhile P xs) + length (dropWhile P xs) = length xs"
    by (metis length_append takeWhile_dropWhile_id)
  then have lt: "j - length (takeWhile P xs) < length (dropWhile P xs)"
    using assms(2,3) by linarith
  then have "dropWhile P xs ! (j - length (takeWhile P xs)) = xs ! j"
    using assms(2) by (simp add: dropWhile_nth)
  with lt have "xs ! j \<in> set (dropWhile P xs)" using nth_mem by metis
  then show ?thesis using assms(1) by blast
qed

lemma down_closed_less [simp]: "down_closed f (\<lambda>a. f a < k)"
  by (auto simp: down_closed_def)

lemma down_closed_id_less [simp]: "down_closed id (\<lambda>y. y < k)"
  by (auto simp: down_closed_def)

lemma down_closed_le [simp]: "down_closed f (\<lambda>a. \<not> k < f a)"
  by (auto simp: down_closed_def)

lemma sorted_dropWhile_not:
  "sorted (map f xs) \<Longrightarrow> down_closed f P \<Longrightarrow> \<forall>y\<in>set (dropWhile P xs). \<not> P y"
proof (induction xs)
  case Nil
  then show ?case by simp
next
  case (Cons x xs)
  then show ?case by (auto simp: down_closed_def)
qed

lemma sorted_takeWhile_filter:
  assumes "sorted (map f xs)" "down_closed f P"
  shows "takeWhile P xs = filter P xs"
  using sorted_dropWhile_not [OF assms] by (intro takeWhile_eq_filter) blast

lemma sorted_dropWhile_filter:
  assumes "sorted (map f xs)" "down_closed f P"
  shows "dropWhile P xs = filter (\<lambda>x. \<not> P x) xs"
proof -
  have none: "filter P (dropWhile P xs) = []"
    using sorted_dropWhile_not [OF assms] by (simp add: filter_empty_conv)
  have "filter (\<lambda>x. \<not> P x) (takeWhile P xs) = []"
    by (auto simp: filter_empty_conv dest: set_takeWhileD)
  then have "filter (\<lambda>x. \<not> P x) xs = filter (\<lambda>x. \<not> P x) (dropWhile P xs)"
    by (metis append_Nil filter_append takeWhile_dropWhile_id)
  also have "\<dots> = dropWhile P xs"
    using none by (simp add: filter_id_conv filter_empty_conv)
  finally show ?thesis by simp
qed

lemma sorted_split_filter:
  assumes "sorted (map f xs)" "down_closed f P"
  shows "take (length (filter P xs)) xs = filter P xs"
    and "drop (length (filter P xs)) xs = filter (\<lambda>x. \<not> P x) xs"
  using sorted_takeWhile_filter [OF assms] sorted_dropWhile_filter [OF assms]
  by (metis takeWhile_eq_take, metis dropWhile_eq_drop)

section \<open>Lists of pairs in lexicographic order\<close>

lemma sorted_lex_keys: "sorted (xs :: ('a::linorder \<times> 'b::linorder) list) \<Longrightarrow> sorted (map fst xs)"
  by (induction xs) (auto simp: less_eq_prod_def)

lemma lex_less_by_key: "fst a < fst b \<Longrightarrow> (a :: 'a::linorder \<times> 'b::linorder) < b"
  by (cases a, cases b) (simp add: less_prod_def)


section \<open>Updating one element of a list\<close>

lemma mset_concat_map_update:
  "j < length xs \<Longrightarrow>
   mset (concat (map f (xs[j := y]))) + mset (f (xs ! j)) = mset (concat (map f xs)) + mset (f y)"
proof (induction xs arbitrary: j)
  case Nil
  then show ?case by simp
next
  case (Cons x xs)
  then show ?case by (cases j) (simp_all add: add_ac)
qed

lemma length_filter_update:
  "i < length xs \<Longrightarrow>
   length (filter P (xs[i := y])) + (if P (xs ! i) then 1 else 0) = length (filter P xs) + (if P y then 1 else 0)"
proof (induction xs arbitrary: i)
  case Nil
  then show ?case by simp
next
  case (Cons x xs)
  then show ?case by (cases i) auto
qed

lemma sorted_key_split3:
  "sorted (map fst xs) \<Longrightarrow>
   xs = filter (\<lambda>a. fst a < k) xs @ filter (\<lambda>a. fst a = k) xs @ filter (\<lambda>a. k < fst a) xs"
proof (induction xs)
  case Nil
  then show ?case by simp
next
  case (Cons a xs)
  then have ge: "\<forall>b\<in>set xs. fst a \<le> fst b" and ih: "xs = filter (\<lambda>a. fst a < k) xs @ filter (\<lambda>a. fst a = k) xs @ filter (\<lambda>a. k < fst a) xs"
    by simp_all
  consider "fst a < k" | "fst a = k" | "k < fst a" by fastforce
  then show ?case
  proof cases
    case 1
    then show ?thesis using ih by (auto dest: less_asym)
  next
    case 2
    then have "filter (\<lambda>a. fst a < k) xs = []" using ge by (auto simp: filter_empty_conv)
    then show ?thesis using 2 ih by simp
  next
    case 3
    then have "filter (\<lambda>a. fst a < k) xs = []" "filter (\<lambda>a. fst a = k) xs = []"
      using ge by (fastforce simp: filter_empty_conv)+
    then show ?thesis using 3 ih by (auto dest: less_asym)
  qed
qed

end
