(* ===== verification/Calgo.thy ===== *)
theory Calgo
  imports Prelude
begin

text \<open>
  The generic algorithms of \<^verbatim>\<open>src/inc/container_algo.hpp\<close> (namespace
  \<^verbatim>\<open>calgo\<close>), as the component uses them. The in-place algorithms are modelled
  the way the standard library runs them on a vector, with explicit read and write
  positions, because the component passes them predicates with side effects:
  \<^item> \<open>remove_if_loop\<close> is \<^verbatim>\<open>std::remove_if\<close> with read position \<open>r\<close> and write
    position \<open>w\<close>; the predicate gets a state, the buffer as it is at that moment and
    the element read, and returns its decision and the new state. \<open>erase_if\<close> is
    \<^verbatim>\<open>calgo::erase_if\<close> (remove, then erase to the end);
  \<^item> \<open>unique_loop\<close> is \<^verbatim>\<open>std::unique\<close> with a binary predicate (the last kept
    element against the next one), \<open>erase_duplicates_if\<close> its erasing wrapper;
  \<^item> \<open>set_intersection_by\<close> is \<^verbatim>\<open>calgo::set_intersection\<close>: its value is the list
    of elements the operation is invoked on, in order;
  \<^item> \<open>find\<close>, \<open>contains\<close>, \<open>equal_by\<close>, \<open>equal_values\<close>, \<open>unique_transform\<close>,
    \<open>triangle_product\<close>, \<open>reverse\<close>, \<open>equals_one\<close> are the pure helpers.
  Each in-place algorithm is proved equal to a structural reference definition
  (\<open>erase_if_spec\<close>, \<open>dedup_from\<close>), and the pure instances to the library's
  \<open>filter\<close> and \<open>remdups_adj\<close>.
\<close>

section \<open>Small helpers\<close>

definition equals_one :: "nat \<Rightarrow> bool" where
  "equals_one t \<longleftrightarrow> t = 1"

definition reverse :: "'a \<times> 'b \<Rightarrow> 'b \<times> 'a" where
  "reverse t = (snd t, fst t)"

fun find :: "'a list \<Rightarrow> 'a \<Rightarrow> nat" where
  "find [] v = 0"
| "find (x # xs) v = (if x = v then 0 else Suc (find xs v))"

definition contains :: "'a list \<Rightarrow> 'a \<Rightarrow> bool" where
  "contains xs v \<longleftrightarrow> find xs v \<noteq> length xs"

fun equal_by :: "('a \<Rightarrow> 'b \<Rightarrow> bool) \<Rightarrow> 'a list \<Rightarrow> 'b list \<Rightarrow> bool" where
  "equal_by p [] [] = True"
| "equal_by p (x # xs) (y # ys) = (p x y \<and> equal_by p xs ys)"
| "equal_by p _ _ = False"

definition equal_values :: "('k \<times> 'v) list \<Rightarrow> ('k' \<times> 'v) list \<Rightarrow> bool" where
  "equal_values xs ys = equal_by (\<lambda>a b. snd a = snd b) xs ys"

section \<open>remove_if and erase_if\<close>

function remove_if_loop ::
  "('s \<Rightarrow> 'a list \<Rightarrow> 'a \<Rightarrow> bool \<times> 's) \<Rightarrow> 's \<Rightarrow> 'a list \<Rightarrow> nat \<Rightarrow> nat \<Rightarrow> 's \<times> 'a list \<times> nat"
where
  "remove_if_loop p s buf r w =
     (if r < length buf then
        (let (b, s') = p s buf (buf ! r) in
         if b then remove_if_loop p s' buf (Suc r) w
         else remove_if_loop p s' (buf[w := buf ! r]) (Suc r) (Suc w))
      else (s, buf, w))"
  by pat_completeness auto
termination
  by (relation "measure (\<lambda>(p, s, buf, r, w). length buf - r)") auto

declare remove_if_loop.simps [simp del]

definition erase_if :: "('s \<Rightarrow> 'a list \<Rightarrow> 'a \<Rightarrow> bool \<times> 's) \<Rightarrow> 's \<Rightarrow> 'a list \<Rightarrow> 's \<times> 'a list" where
  "erase_if p s xs = (case remove_if_loop p s xs 0 0 of (s', buf, w) \<Rightarrow> (s', take w buf))"

definition erase_value :: "'a list \<Rightarrow> 'a \<Rightarrow> 'a list" where
  "erase_value xs v = snd (erase_if (\<lambda>s buf x. (x = v, s)) () xs)"

text \<open>
  The reference: one structural pass that keeps the elements the predicate rejects.
  The predicate sees the buffer \<^verbatim>\<open>std::remove_if\<close> leaves behind at that point:
  the kept elements moved to the front, the original contents from the first
  position not yet written to on.
\<close>

fun erase_if_spec ::
  "('s \<Rightarrow> 'a list \<Rightarrow> 'a \<Rightarrow> bool \<times> 's) \<Rightarrow> 's \<Rightarrow> 'a list \<Rightarrow> 'a list \<Rightarrow> 'a list \<Rightarrow> 's \<times> 'a list"
where
  "erase_if_spec p s orig kept [] = (s, kept)"
| "erase_if_spec p s orig kept (x # rest) =
     (let (b, s') = p s (kept @ drop (length kept) orig) x in
      if b then erase_if_spec p s' orig kept rest
      else erase_if_spec p s' orig (kept @ [x]) rest)"

section \<open>unique and erase_duplicates_if\<close>

function unique_loop ::
  "('s \<Rightarrow> 'a \<Rightarrow> 'a \<Rightarrow> bool \<times> 's) \<Rightarrow> 's \<Rightarrow> 'a list \<Rightarrow> nat \<Rightarrow> nat \<Rightarrow> 's \<times> 'a list \<times> nat"
where
  "unique_loop p s buf d i =
     (if i < length buf then
        (let (b, s') = p s (buf ! d) (buf ! i) in
         if b then unique_loop p s' buf d (Suc i)
         else unique_loop p s' (buf[Suc d := buf ! i]) (Suc d) (Suc i))
      else (s, buf, Suc d))"
  by pat_completeness auto
termination
  by (relation "measure (\<lambda>(p, s, buf, d, i). length buf - i)") auto

declare unique_loop.simps [simp del]

definition unique_if :: "('s \<Rightarrow> 'a \<Rightarrow> 'a \<Rightarrow> bool \<times> 's) \<Rightarrow> 's \<Rightarrow> 'a list \<Rightarrow> 's \<times> 'a list \<times> nat" where
  "unique_if p s xs = (if xs = [] then (s, xs, 0) else unique_loop p s xs 0 1)"

definition erase_duplicates_if ::
  "('s \<Rightarrow> 'a \<Rightarrow> 'a \<Rightarrow> bool \<times> 's) \<Rightarrow> 's \<Rightarrow> 'a list \<Rightarrow> 's \<times> 'a list" where
  "erase_duplicates_if p s xs = (case unique_if p s xs of (s', buf, n) \<Rightarrow> (s', take n buf))"

fun dedup_from :: "('s \<Rightarrow> 'a \<Rightarrow> 'a \<Rightarrow> bool \<times> 's) \<Rightarrow> 's \<Rightarrow> 'a \<Rightarrow> 'a list \<Rightarrow> 's \<times> 'a list" where
  "dedup_from p s d [] = (s, [])"
| "dedup_from p s d (x # xs) =
     (let (b, s') = p s d x in
      if b then dedup_from p s' d xs
      else (case dedup_from p s' x xs of (s'', ys) \<Rightarrow> (s'', x # ys)))"

section \<open>Other algorithms\<close>

fun unique_transform_from :: "('a \<Rightarrow> 'a \<Rightarrow> bool) \<Rightarrow> ('a \<Rightarrow> 'b) \<Rightarrow> 'a \<Rightarrow> 'a list \<Rightarrow> 'b list" where
  "unique_transform_from pred tr temp [] = []"
| "unique_transform_from pred tr temp (x # xs) =
     (if \<not> pred temp x then tr x # unique_transform_from pred tr x xs
      else unique_transform_from pred tr temp xs)"

definition unique_transform :: "('a \<Rightarrow> 'a \<Rightarrow> bool) \<Rightarrow> ('a \<Rightarrow> 'b) \<Rightarrow> 'a list \<Rightarrow> 'b list" where
  "unique_transform pred tr xs =
     (case xs of [] \<Rightarrow> [] | x # xs' \<Rightarrow> tr x # unique_transform_from pred tr x xs')"

fun triangle_product :: "'a list \<Rightarrow> ('a \<times> 'a) list" where
  "triangle_product [] = []"
| "triangle_product (x # xs) = map (\<lambda>y. (x, y)) xs @ triangle_product xs"

fun set_intersection_by :: "('a \<Rightarrow> 'b \<Rightarrow> bool) \<Rightarrow> ('b \<Rightarrow> 'a \<Rightarrow> bool) \<Rightarrow> 'a list \<Rightarrow> 'b list \<Rightarrow> 'a list" where
  "set_intersection_by c1 c2 [] ys = []"
| "set_intersection_by c1 c2 (x # xs) [] = []"
| "set_intersection_by c1 c2 (x # xs) (y # ys) =
     (if c1 x y then set_intersection_by c1 c2 xs (y # ys)
      else if \<not> c2 y x then x # set_intersection_by c1 c2 xs ys
      else set_intersection_by c1 c2 (x # xs) ys)"

definition set_intersection :: "'a::ord list \<Rightarrow> 'a list \<Rightarrow> 'a list" where
  "set_intersection xs ys = set_intersection_by (<) (<) xs ys"

text \<open>
  \<^verbatim>\<open>calgo::sort\<close> calls \<^verbatim>\<open>std::sort\<close>. For a range of at most 16 elements
  libstdc++ runs only its final insertion sort (\<^verbatim>\<open>__insertion_sort\<close>): each new
  element goes to the front if it is less than the first, and otherwise is moved left
  past the elements it is less than by \<^verbatim>\<open>__unguarded_linear_insert\<close>. That is
  \<open>std_insertion_sort\<close>; it is used for concrete runs, while the component theory
  states its results for any sorting routine that permutes its input.
\<close>

definition unguarded_linear_insert :: "('a \<Rightarrow> 'a \<Rightarrow> bool) \<Rightarrow> 'a \<Rightarrow> 'a list \<Rightarrow> 'a list" where
  "unguarded_linear_insert cmp x ps =
     rev (dropWhile (cmp x) (rev ps)) @ x # rev (takeWhile (cmp x) (rev ps))"

definition insertion_step :: "('a \<Rightarrow> 'a \<Rightarrow> bool) \<Rightarrow> 'a \<Rightarrow> 'a list \<Rightarrow> 'a list" where
  "insertion_step cmp x ps =
     (if cmp x (hd ps) then x # ps else unguarded_linear_insert cmp x ps)"

definition std_insertion_sort :: "('a \<Rightarrow> 'a \<Rightarrow> bool) \<Rightarrow> 'a list \<Rightarrow> 'a list" where
  "std_insertion_sort cmp xs =
     (case xs of [] \<Rightarrow> [] | x # xs' \<Rightarrow> fold (insertion_step cmp) xs' [x])"

section \<open>The remaining wrappers\<close>

text \<open>
  \<^verbatim>\<open>calgo::value\<close> and \<^verbatim>\<open>calgo::key\<close> read the second and first component of
  a pair; \<^verbatim>\<open>distance\<close> is the length of a range.
\<close>

definition calgo_value :: "'a \<times> 'b \<Rightarrow> 'b" where
  "calgo_value t = snd t"

definition calgo_key :: "'a \<times> 'b \<Rightarrow> 'a" where
  "calgo_key t = fst t"

definition distance :: "'a list \<Rightarrow> nat" where
  "distance xs = length xs"

definition only_one_exists :: "'a list \<Rightarrow> bool" where
  "only_one_exists t \<longleftrightarrow> equals_one (distance t)"

definition none_exists :: "'a list \<Rightarrow> bool" where
  "none_exists t \<longleftrightarrow> distance t = 0"

fun find_if :: "('a \<Rightarrow> bool) \<Rightarrow> 'a list \<Rightarrow> nat" where
  "find_if P [] = 0"
| "find_if P (x # xs) = (if P x then 0 else Suc (find_if P xs))"

definition contains_if :: "('a \<Rightarrow> bool) \<Rightarrow> 'a list \<Rightarrow> bool" where
  "contains_if P xs \<longleftrightarrow> find_if P xs \<noteq> length xs"

text \<open>
  \<^verbatim>\<open>std::remove\<close> returns the buffer and the new end; \<^verbatim>\<open>std::unique\<close> likewise,
  comparing with \<^verbatim>\<open>==\<close>.
\<close>

definition remove :: "'a list \<Rightarrow> 'a \<Rightarrow> 'a list \<times> nat" where
  "remove xs v = snd (remove_if_loop (\<lambda>s buf x. (x = v, s)) () xs 0 0)"

definition unique :: "'a list \<Rightarrow> 'a list \<times> nat" where
  "unique xs = snd (unique_if (\<lambda>s a b. (a = b, s)) () xs)"

definition erase_to_end :: "nat \<Rightarrow> 'a list \<Rightarrow> 'a list" where
  "erase_to_end start xs = take start xs"

definition erase_duplicates :: "'a list \<Rightarrow> 'a list" where
  "erase_duplicates xs = (case unique xs of (buf, n) \<Rightarrow> erase_to_end n buf)"

definition erase_range :: "nat \<Rightarrow> nat \<Rightarrow> 'a list \<Rightarrow> 'a list" where
  "erase_range b e xs = take b xs @ drop e xs"

text \<open>
  \<^verbatim>\<open>container.erase(location)\<close> needs a dereferenceable iterator: erasing at the end
  is undefined behaviour, modelled as \<open>None\<close>.
\<close>

definition erase_at :: "nat \<Rightarrow> 'a list \<Rightarrow> 'a list option" where
  "erase_at location xs = (if location < length xs then Some (erase_range location (Suc location) xs) else None)"

definition erase_if_found :: "('a \<Rightarrow> bool) \<Rightarrow> 'a list \<Rightarrow> 'a list option" where
  "erase_if_found P xs = erase_at (find_if P xs) xs"

section \<open>The in-place algorithms equal their references\<close>

lemma remove_if_loop_step:
  "r < length buf \<Longrightarrow> p s buf (buf ! r) = (b, s') \<Longrightarrow>
   remove_if_loop p s buf r w =
     (if b then remove_if_loop p s' buf (Suc r) w
      else remove_if_loop p s' (buf[w := buf ! r]) (Suc r) (Suc w))"
  by (subst remove_if_loop.simps) simp

lemma remove_if_loop_spec:
  "length buf = length orig \<Longrightarrow> w \<le> r \<Longrightarrow> r \<le> length orig \<Longrightarrow> buf = take w buf @ drop w orig \<Longrightarrow>
   (case remove_if_loop p s buf r w of (s', b, n) \<Rightarrow> (s', take n b)) =
   erase_if_spec p s orig (take w buf) (drop r orig)"
proof (induction p s buf r w rule: remove_if_loop.induct)
  case (1 p s buf r w)
  show ?case
  proof (cases "r < length buf")
    case False
    with "1.prems" show ?thesis by (simp add: remove_if_loop.simps)
  next
    case True
    let ?kept = "take w buf"
    have lenk: "length ?kept = w" using "1.prems"(2) True by simp
    have "buf ! r = (?kept @ drop w orig) ! r" using "1.prems"(4) by metis
    also have "\<dots> = orig ! r" using lenk "1.prems"(1,2) True by (simp add: nth_append)
    finally have x: "buf ! r = orig ! r" .
    have rest: "drop r orig = orig ! r # drop (Suc r) orig"
      using True "1.prems"(1) by (simp add: Cons_nth_drop_Suc)
    have view: "?kept @ drop (length ?kept) orig = buf" using lenk "1.prems"(4) by simp
    obtain b s' where eq: "p s buf (buf ! r) = (b, s')" by fastforce
    show ?thesis
    proof (cases b)
      case True
      have "(case remove_if_loop p s' buf (Suc r) w of (s', b, n) \<Rightarrow> (s', take n b)) =
            erase_if_spec p s' orig ?kept (drop (Suc r) orig)"
        using "1.IH"(1) [OF \<open>r < length buf\<close> refl eq [symmetric] True] "1.prems" \<open>r < length buf\<close>
        by simp
      then show ?thesis
        using remove_if_loop_step [where p = p, OF \<open>r < length buf\<close> eq] True eq view x rest by simp
    next
      case False
      let ?buf' = "buf[w := buf ! r]"
      have w_lt: "w < length buf" using "1.prems"(2) \<open>r < length buf\<close> by simp
      have k': "take (Suc w) ?buf' = ?kept @ [orig ! r]"
        using w_lt x by (simp add: take_Suc_conv_app_nth)
      have "drop (Suc w) buf = drop (Suc w) (?kept @ drop w orig)" using "1.prems"(4) by metis
      then have d': "drop (Suc w) ?buf' = drop (Suc w) orig" using lenk by simp
      have buf': "?buf' = take (Suc w) ?buf' @ drop (Suc w) orig"
        using d' by (metis append_take_drop_id)
      have "(case remove_if_loop p s' ?buf' (Suc r) (Suc w) of (s', b, n) \<Rightarrow> (s', take n b)) =
            erase_if_spec p s' orig (take (Suc w) ?buf') (drop (Suc r) orig)"
        using "1.IH"(2) [OF \<open>r < length buf\<close> refl eq [symmetric] False] "1.prems" \<open>r < length buf\<close> buf'
        by simp
      then show ?thesis
        using remove_if_loop_step [where p = p, OF \<open>r < length buf\<close> eq] False eq view x rest k' by simp
    qed
  qed
qed
lemma erase_if_eq_spec: "erase_if p s xs = erase_if_spec p s xs [] xs"
  using remove_if_loop_spec [of xs xs 0 0 p s] by (simp add: erase_if_def)

lemma erase_if_spec_decided:
  "(\<And>s b x. fst (p s b x) = P x) \<Longrightarrow>
   snd (erase_if_spec p s orig kept rest) = kept @ filter (\<lambda>x. \<not> P x) rest"
proof (induction rest arbitrary: s kept)
  case Nil
  then show ?case by simp
next
  case (Cons x rest)
  obtain b s' where eq: "p s (kept @ drop (length kept) orig) x = (b, s')" by fastforce
  with Cons.prems have "b = P x" by (metis fst_conv)
  with eq Cons show ?case by simp
qed

lemma erase_if_spec_append:
  "erase_if_spec p s orig kept (xs @ ys) =
   (case erase_if_spec p s orig kept xs of (s', kept') \<Rightarrow> erase_if_spec p s' orig kept' ys)"
  by (induction xs arbitrary: s kept) (simp_all add: Let_def split: prod.splits)

lemma erase_value_filter: "erase_value xs v = filter (\<lambda>x. x \<noteq> v) xs"
  using erase_if_spec_decided [of "\<lambda>s buf x. (x = v, s)" "\<lambda>x. x = v" "()" xs "[]" xs]
  by (simp add: erase_value_def erase_if_eq_spec)

lemma unique_loop_step:
  "i < length buf \<Longrightarrow> p s (buf ! d) (buf ! i) = (b, s') \<Longrightarrow>
   unique_loop p s buf d i =
     (if b then unique_loop p s' buf d (Suc i)
      else unique_loop p s' (buf[Suc d := buf ! i]) (Suc d) (Suc i))"
  by (subst unique_loop.simps) simp

lemma unique_loop_spec:
  "Suc d \<le> i \<Longrightarrow> i \<le> length buf \<Longrightarrow>
   (case unique_loop p s buf d i of (s', b, n) \<Rightarrow> (s', take n b)) =
   (case dedup_from p s (buf ! d) (drop i buf) of (s', ys) \<Rightarrow> (s', take (Suc d) buf @ ys))"
proof (induction p s buf d i rule: unique_loop.induct)
  case (1 p s buf d i)
  show ?case
  proof (cases "i < length buf")
    case False
    with "1.prems" show ?thesis by (simp add: unique_loop.simps)
  next
    case True
    have rest: "drop i buf = buf ! i # drop (Suc i) buf"
      using True by (simp add: Cons_nth_drop_Suc)
    obtain b s' where eq: "p s (buf ! d) (buf ! i) = (b, s')" by fastforce
    show ?thesis
    proof (cases b)
      case True
      then show ?thesis
        using "1.IH"(1) [OF \<open>i < length buf\<close> refl eq [symmetric] True] "1.prems" \<open>i < length buf\<close>
          unique_loop_step [where p = p, OF \<open>i < length buf\<close> eq] eq rest
        by simp
    next
      case False
      let ?buf' = "buf[Suc d := buf ! i]"
      have sd: "Suc d < length buf" using "1.prems"(1) \<open>i < length buf\<close> by simp
      have k': "take (Suc (Suc d)) ?buf' = take (Suc d) buf @ [buf ! i]"
        using sd by (simp add: take_Suc_conv_app_nth)
      have d': "drop (Suc i) ?buf' = drop (Suc i) buf"
        using "1.prems"(1) by simp
      have nth': "?buf' ! Suc d = buf ! i" using sd by simp
      have "(case unique_loop p s' ?buf' (Suc d) (Suc i) of (s', b, n) \<Rightarrow> (s', take n b)) =
            (case dedup_from p s' (buf ! i) (drop (Suc i) buf) of (s'', ys) \<Rightarrow> (s'', take (Suc d) buf @ [buf ! i] @ ys))"
        using "1.IH"(2) [OF \<open>i < length buf\<close> refl eq [symmetric] False] "1.prems" \<open>i < length buf\<close> k' d' nth'
        by simp
      then show ?thesis
        using unique_loop_step [where p = p, OF \<open>i < length buf\<close> eq] False eq rest
        by (simp split: prod.split)
    qed
  qed
qed

lemma erase_duplicates_if_eq_spec:
  "erase_duplicates_if p s xs =
     (case xs of [] \<Rightarrow> (s, []) | x # xs' \<Rightarrow> (case dedup_from p s x xs' of (s', ys) \<Rightarrow> (s', x # ys)))"
proof (cases xs)
  case Nil
  then show ?thesis by (simp add: erase_duplicates_if_def unique_if_def)
next
  case (Cons x xs')
  then show ?thesis
    using unique_loop_spec [of 0 1 xs p s] by (simp add: erase_duplicates_if_def unique_if_def)
qed

lemma dedup_from_eq_remdups_adj:
  "snd (dedup_from (\<lambda>s a b. (a = b, s)) s d xs) = tl (remdups_adj (d # xs))"
proof (induction xs arbitrary: d)
  case Nil
  then show ?case by simp
next
  case (Cons x xs)
  show ?case
  proof (cases "d = x")
    case True
    then show ?thesis using Cons.IH [of d] by simp
  next
    case False
    have "snd (dedup_from (\<lambda>s a b. (a = b, s)) s x xs) = tl (remdups_adj (x # xs))"
      by (rule Cons.IH)
    then show ?thesis using False
      by (cases "dedup_from (\<lambda>s a b. (a = b, s)) s x xs") simp
  qed
qed

section \<open>The pure algorithms\<close>

lemma find_le: "find xs v \<le> length xs"
  by (induction xs) auto

lemma contains_iff [simp]: "contains xs v \<longleftrightarrow> v \<in> set xs"
proof (induction xs)
  case Nil
  then show ?case by (simp add: contains_def)
next
  case (Cons x xs)
  then show ?case by (auto simp: contains_def)
qed

lemma equal_by_iff: "equal_by p xs ys \<longleftrightarrow> list_all2 p xs ys"
  by (induction p xs ys rule: equal_by.induct) auto

lemma equal_values_iff: "equal_values xs ys \<longleftrightarrow> map snd xs = map snd ys"
proof -
  have "list_all2 (\<lambda>a b. snd a = snd b) xs ys \<longleftrightarrow> map snd xs = map snd ys"
    by (simp add: list_all2_map1 list_all2_map2 list.rel_eq [symmetric] list.rel_map)
  then show ?thesis by (simp add: equal_values_def equal_by_iff)
qed

lemma set_intersection_by_sorted:
  "c1 = (<) \<Longrightarrow> c2 = (<) \<Longrightarrow> sorted_wrt (<) xs \<Longrightarrow> sorted_wrt (<) ys \<Longrightarrow>
   set_intersection_by c1 c2 xs ys = filter (\<lambda>x. x \<in> set ys) (xs :: 'a::linorder list)"
proof (induction c1 c2 xs ys rule: set_intersection_by.induct)
  case (1 c1 c2 ys)
  then show ?case by simp
next
  case (2 c1 c2 x xs)
  then show ?case by simp
next
  case (3 c1 c2 x xs y ys)
  have xs_gt: "\<forall>z\<in>set xs. x < z" and ys_gt: "\<forall>z\<in>set ys. y < z"
    using "3.prems"(3,4) by simp_all
  show ?case
  proof (cases "x < y")
    case True
    then have "x \<notin> set (y # ys)" using ys_gt by auto
    then show ?thesis using True "3.IH"(1) "3.prems" by simp
  next
    case nlt: False
    show ?thesis
    proof (cases "y < x")
      case False
      with nlt have xy: "x = y" by simp
      have "filter (\<lambda>z. z \<in> set (y # ys)) xs = filter (\<lambda>z. z \<in> set ys) xs"
        using xs_gt xy by (intro filter_cong) auto
      then show ?thesis using nlt False xy "3.IH"(2) "3.prems" by simp
    next
      case True
      then have "filter (\<lambda>z. z \<in> set (y # ys)) (x # xs) = filter (\<lambda>z. z \<in> set ys) (x # xs)"
        using xs_gt by (intro filter_cong) auto
      then show ?thesis using nlt True "3.IH"(3) "3.prems" by simp
    qed
  qed
qed

text \<open>
  Claim C31: on two strictly sorted ranges \<^verbatim>\<open>calgo::set_intersection\<close> calls the
  operation on the elements of the first range that occur in the second, in order.
\<close>

lemma set_intersection_sorted:
  "sorted_wrt (<) xs \<Longrightarrow> sorted_wrt (<) ys \<Longrightarrow>
   set_intersection xs ys = filter (\<lambda>x. x \<in> set ys) (xs :: 'a::linorder list)"
  by (simp add: set_intersection_def set_intersection_by_sorted)

text \<open>
  Claim C32: \<^verbatim>\<open>calgo::triangle_product\<close> calls the operation on the pairs of
  elements at positions i < j.
\<close>

lemma triangle_product_set:
  "set (triangle_product xs) = {(xs ! i, xs ! j) | i j. i < j \<and> j < length xs}"
proof (induction xs)
  case Nil
  then show ?case by simp
next
  case (Cons x xs)
  show ?case
  proof (intro set_eqI iffI)
    fix q assume "q \<in> set (triangle_product (x # xs))"
    then consider (hd) "q \<in> set (map (\<lambda>y. (x, y)) xs)" | (tl) "q \<in> set (triangle_product xs)" by auto
    then show "q \<in> {((x # xs) ! i, (x # xs) ! j) | i j. i < j \<and> j < length (x # xs)}"
    proof cases
      case hd
      then obtain j where "j < length xs" "q = (x, xs ! j)" by (auto simp: in_set_conv_nth)
      then show ?thesis by (intro CollectI exI [of _ 0] exI [of _ "Suc j"]) simp
    next
      case tl
      then obtain i j where "i < j" "j < length xs" "q = (xs ! i, xs ! j)" using Cons.IH by auto
      then show ?thesis by (intro CollectI exI [of _ "Suc i"] exI [of _ "Suc j"]) simp
    qed
  next
    fix q assume "q \<in> {((x # xs) ! i, (x # xs) ! j) | i j. i < j \<and> j < length (x # xs)}"
    then obtain i j where ij: "i < j" "j < Suc (length xs)" "q = ((x # xs) ! i, (x # xs) ! j)" by auto
    then obtain j' where j': "j = Suc j'" by (cases j) auto
    show "q \<in> set (triangle_product (x # xs))"
    proof (cases i)
      case 0
      then show ?thesis using ij j' by auto
    next
      case (Suc i')
      then have "q \<in> set (triangle_product xs)" using ij j' Cons.IH by auto
      then show ?thesis by simp
    qed
  qed
qed

text \<open>
  \<^verbatim>\<open>calgo::triangle_product\<close> calls the operation n (n - 1) / 2 times on n
  elements.
\<close>

lemma length_triangle_product: "length (triangle_product xs) = length xs * (length xs - 1) div 2"
proof (induction xs)
  case Nil
  then show ?case by simp
next
  case (Cons x xs)
  have "length xs + length xs * (length xs - 1) div 2 = (length xs + 1) * length xs div 2"
    by (cases "length xs") (simp_all add: algebra_simps, presburger?)
  then show ?case using Cons.IH by (simp add: algebra_simps)
qed

lemma unique_transform_from_eq:
  "unique_transform_from (=) tr d xs = map tr (tl (remdups_adj (d # xs)))"
proof (induction xs arbitrary: d)
  case Nil
  then show ?case by simp
next
  case (Cons x xs)
  then show ?case by (cases "d = x") (simp_all, metis list.simps(9) remdups_adj_Cons_alt)
qed

text \<open>
  Claim C28: \<^verbatim>\<open>calgo::unique_transform\<close> with \<^verbatim>\<open>==\<close> transforms each run of
  equal adjacent elements once.
\<close>

lemma unique_transform_eq: "unique_transform (=) tr xs = map tr (remdups_adj xs)"
proof (cases xs)
  case Nil
  then show ?thesis by (simp add: unique_transform_def)
next
  case (Cons x xs')
  have "unique_transform (=) tr xs = tr x # map tr (tl (remdups_adj (x # xs')))"
    using Cons by (simp add: unique_transform_def unique_transform_from_eq)
  also have "\<dots> = map tr (x # tl (remdups_adj (x # xs')))"
    by (simp only: list.map)
  also have "\<dots> = map tr (remdups_adj xs)"
    using Cons by (simp only: remdups_adj_Cons_alt)
  finally show ?thesis .
qed

lemma mset_unguarded_linear_insert [simp]:
  "mset (unguarded_linear_insert cmp x ps) = add_mset x (mset ps)"
proof -
  have "mset (rev ps) = mset (takeWhile (cmp x) (rev ps)) + mset (dropWhile (cmp x) (rev ps))"
    by (metis mset_append takeWhile_dropWhile_id)
  then show ?thesis by (simp add: unguarded_linear_insert_def)
qed

lemma mset_std_insertion_sort [simp]: "mset (std_insertion_sort cmp xs) = mset xs"
proof (cases xs)
  case Nil
  then show ?thesis by (simp add: std_insertion_sort_def)
next
  case (Cons x xs')
  have "mset (fold (insertion_step cmp) ys ps) = mset ys + mset ps" for ys ps
    by (induction ys arbitrary: ps) (simp_all add: insertion_step_def)
  then show ?thesis using Cons by (simp add: std_insertion_sort_def)
qed


lemma find_if_takeWhile: "find_if P xs = length (takeWhile (\<lambda>x. \<not> P x) xs)"
  by (induction xs) auto

lemma contains_if_iff: "contains_if P xs \<longleftrightarrow> list_ex P xs"
proof -
  have "length (takeWhile (\<lambda>x. \<not> P x) xs) = length xs \<longleftrightarrow> takeWhile (\<lambda>x. \<not> P x) xs = xs"
    by (metis takeWhile_eq_take take_all_iff length_take min.absorb_iff2 nat_le_linear)
  then show ?thesis by (simp add: contains_if_def find_if_takeWhile list_ex_iff takeWhile_eq_all_conv)
qed

text \<open>
  Claim C26: with a predicate that has no state and ignores the buffer, \<^verbatim>\<open>calgo::erase_if\<close>
  (\<^verbatim>\<open>std::remove_if\<close> with its read and write positions, then erase to the end)
  keeps exactly the elements the predicate rejects, in order.
\<close>

theorem erase_if_filter: "snd (erase_if (\<lambda>s buf x. (P x, s)) s xs) = filter (\<lambda>x. \<not> P x) xs"
  using erase_if_spec_decided [of "\<lambda>s buf x. (P x, s)" P s xs "[]" xs] by (simp add: erase_if_eq_spec)

lemma remdups_adj_Cons_hd: "remdups_adj (x # xs) = x # tl (remdups_adj (x # xs))"
  by (induction xs arbitrary: x) auto

text \<open>
  Claim C27: \<^verbatim>\<open>calgo::erase_duplicates\<close> (\<^verbatim>\<open>std::unique\<close>, then erase to the
  end) removes exactly the adjacent duplicates.
\<close>

theorem erase_duplicates_remdups: "erase_duplicates xs = remdups_adj xs"
proof (cases xs)
  case Nil
  then show ?thesis by (simp add: erase_duplicates_def unique_def unique_if_def erase_to_end_def)
next
  case (Cons x xs')
  have "erase_duplicates xs = snd (erase_duplicates_if (\<lambda>s a b. (a = b, s)) () xs)"
    by (simp add: erase_duplicates_def unique_def erase_duplicates_if_def erase_to_end_def split: prod.split)
  also have "\<dots> = x # snd (dedup_from (\<lambda>s a b. (a = b, s)) () x xs')"
    by (simp add: erase_duplicates_if_eq_spec Cons split: prod.split)
  also have "\<dots> = remdups_adj xs"
    using dedup_from_eq_remdups_adj [of "()" x xs'] remdups_adj_Cons_hd [of x xs'] Cons by simp
  finally show ?thesis .
qed

text \<open>
  Claim C33: \<^verbatim>\<open>calgo::erase_if_found\<close> erases the first element that satisfies the
  predicate; when there is none it calls \<^verbatim>\<open>erase(end())\<close>, which is undefined
  behaviour (\<open>None\<close>).
\<close>

theorem erase_if_found_result:
  "erase_if_found P xs =
     (if list_ex P xs then Some (takeWhile (\<lambda>x. \<not> P x) xs @ tl (dropWhile (\<lambda>x. \<not> P x) xs)) else None)"
proof (induction xs)
  case Nil
  then show ?case by (simp add: erase_if_found_def erase_at_def)
next
  case (Cons x xs)
  then show ?case
    by (auto simp: erase_if_found_def erase_at_def erase_range_def find_if_takeWhile drop_Suc
        split: if_splits)
qed

end
