(* ===== verification/Flat_Containers.thy ===== *)
theory Flat_Containers
  imports Prelude
begin

text \<open>
  The containers of \<^verbatim>\<open>associated_collection\<close> are
  \<^verbatim>\<open>boost::container::flat_set\<close> and \<^verbatim>\<open>flat_multimap\<close>: a vector kept sorted
  and searched by binary search. This theory gives the operations the component calls
  on them as functions on lists:
  \<^item> \<open>partition_point\<close> is the binary search loop shared by \<open>lower_bound\<close> and
    \<open>upper_bound\<close> (halve the length, step past the middle when the predicate holds
    there); it works on the buffer as it is, sorted or not;
  \<^item> \<open>flat_set_insert\<close> is \<^verbatim>\<open>flat_set::insert\<close>/\<^verbatim>\<open>emplace\<close> (insert at the
    lower bound unless an equivalent element is found there);
  \<^item> \<open>multimap_insert_equal\<close>, \<open>equal_range_key\<close>, \<open>multimap_erase_range\<close> and
    \<open>multimap_erase_key\<close> are \<^verbatim>\<open>flat_multimap::emplace\<close> (insert at the upper
    bound of the key), \<^verbatim>\<open>equal_range\<close>, \<^verbatim>\<open>erase(first, last)\<close> and
    \<^verbatim>\<open>erase(key)\<close>; \<open>count_key\<close> (Prelude) is \<^verbatim>\<open>count\<close>.
  The main lemmas show that on sorted input each binary-search routine computes what
  the corresponding filter over the list computes (the reference semantics), and that
  \<open>flat_set_insert\<close> refines insertion into the set the list represents.
\<close>

section \<open>Binary search\<close>

fun partition_point :: "('a \<Rightarrow> bool) \<Rightarrow> 'a list \<Rightarrow> nat \<Rightarrow> nat \<Rightarrow> nat" where
  "partition_point p xs first len =
     (if len = 0 then first
      else let step = len div 2; middle = first + step in
        if p (xs ! middle) then partition_point p xs (Suc middle) (len - Suc step)
        else partition_point p xs first step)"

declare partition_point.simps [simp del]

definition lower_bound :: "'a::linorder \<Rightarrow> 'a list \<Rightarrow> nat" where
  "lower_bound x xs = partition_point (\<lambda>y. y < x) xs 0 (length xs)"

definition lower_bound_key :: "'k::linorder \<Rightarrow> ('k \<times> 'v) list \<Rightarrow> nat" where
  "lower_bound_key k xs = partition_point (\<lambda>a. fst a < k) xs 0 (length xs)"

definition upper_bound_key :: "'k::linorder \<Rightarrow> ('k \<times> 'v) list \<Rightarrow> nat" where
  "upper_bound_key k xs = partition_point (\<lambda>a. \<not> k < fst a) xs 0 (length xs)"

section \<open>flat_set and flat_multimap operations\<close>

definition flat_set_insert :: "'a::linorder \<Rightarrow> 'a list \<Rightarrow> 'a list" where
  "flat_set_insert x xs =
     (let i = lower_bound x xs in
      if i = length xs \<or> x < xs ! i then take i xs @ x # drop i xs else xs)"

definition equal_range_key :: "'k::linorder \<Rightarrow> ('k \<times> 'v) list \<Rightarrow> ('k \<times> 'v) list" where
  "equal_range_key k xs = drop (lower_bound_key k xs) (take (upper_bound_key k xs) xs)"

definition multimap_erase_range :: "nat \<Rightarrow> nat \<Rightarrow> 'a list \<Rightarrow> 'a list" where
  "multimap_erase_range lo hi xs = take lo xs @ drop hi xs"

definition multimap_erase_key :: "'k::linorder \<Rightarrow> ('k \<times> 'v) list \<Rightarrow> ('k \<times> 'v) list" where
  "multimap_erase_key k xs = multimap_erase_range (lower_bound_key k xs) (upper_bound_key k xs) xs"

definition multimap_insert_equal :: "'k::linorder \<Rightarrow> 'v \<Rightarrow> ('k \<times> 'v) list \<Rightarrow> ('k \<times> 'v) list" where
  "multimap_insert_equal k v xs = (let i = upper_bound_key k xs in take i xs @ (k, v) # drop i xs)"

section \<open>The binary search finds the split point\<close>

lemma partition_point_0: "partition_point p xs first 0 = first"
  by (simp add: partition_point.simps)

lemma partition_point_hit:
  "len \<noteq> 0 \<Longrightarrow> p (xs ! (first + len div 2)) \<Longrightarrow>
   partition_point p xs first len = partition_point p xs (Suc (first + len div 2)) (len - Suc (len div 2))"
  by (subst partition_point.simps) (simp add: Let_def)

lemma partition_point_miss:
  "len \<noteq> 0 \<Longrightarrow> \<not> p (xs ! (first + len div 2)) \<Longrightarrow>
   partition_point p xs first len = partition_point p xs first (len div 2)"
  by (subst partition_point.simps) (simp add: Let_def)

text \<open>
  The loop invariant of the search: the split point lies in \<open>[first, first + len]\<close>.
  Induction on the length of the window, as the loop shrinks it.
\<close>

lemma partition_point_eq:
  assumes part: "\<forall>y\<in>set (dropWhile p xs). \<not> p y"
  shows "first \<le> length (takeWhile p xs) \<Longrightarrow> length (takeWhile p xs) \<le> first + len
    \<Longrightarrow> first + len \<le> length xs \<Longrightarrow> partition_point p xs first len = length (takeWhile p xs)"
proof (induction len arbitrary: first rule: less_induct)
  case (less len first)
  let ?n = "length (takeWhile p xs)"
  show ?case
  proof (cases "len = 0")
    case True
    with less.prems show ?thesis by (simp add: partition_point_0)
  next
    case False
    define m where "m = first + len div 2"
    have m_lt: "m < length xs" using False less.prems(3) unfolding m_def by linarith
    show ?thesis
    proof (cases "p (xs ! m)")
      case True
      have "\<not> ?n \<le> m"
        using True dropWhile_part_nth [OF part _ m_lt] by blast
      then have "Suc m \<le> ?n" by simp
      moreover have "?n \<le> Suc m + (len - Suc (len div 2))"
        using less.prems(2) False unfolding m_def by linarith
      moreover have "Suc m + (len - Suc (len div 2)) \<le> length xs"
        using less.prems(3) False unfolding m_def by linarith
      moreover have "len - Suc (len div 2) < len" using False by linarith
      ultimately have "partition_point p xs (Suc m) (len - Suc (len div 2)) = ?n"
        using less.IH by blast
      then show ?thesis
        using False True partition_point_hit [of len p xs first] unfolding m_def by simp
    next
      case miss: False
      have "\<not> m < ?n"
        using miss takeWhile_nth_P [of m p xs] by blast
      then have "?n \<le> first + len div 2" unfolding m_def by simp
      moreover have "first + len div 2 \<le> length xs"
        using less.prems(3) by linarith
      moreover have "len div 2 < len" using False by simp
      ultimately have "partition_point p xs first (len div 2) = ?n"
        using less.IH less.prems(1) by blast
      then show ?thesis
        using False miss partition_point_miss [of len p xs first] unfolding m_def by simp
    qed
  qed
qed

lemma partition_point_sorted:
  assumes "sorted (map f xs)" "down_closed f P"
  shows "partition_point P xs 0 (length xs) = length (filter P xs)"
proof -
  have "partition_point P xs 0 (length xs) = length (takeWhile P xs)"
    using sorted_dropWhile_not [OF assms]
    by (intro partition_point_eq) (simp_all add: length_takeWhile_le)
  then show ?thesis using sorted_takeWhile_filter [OF assms] by simp
qed

lemma lower_bound_sorted [flat_simps]:
  "sorted xs \<Longrightarrow> lower_bound x xs = length (filter (\<lambda>y. y < x) xs)"
  using partition_point_sorted [of id xs "\<lambda>y. y < x"] by (simp add: lower_bound_def)

lemma lower_bound_key_sorted [flat_simps]:
  "sorted (map fst xs) \<Longrightarrow> lower_bound_key k xs = length (filter (\<lambda>a. fst a < k) xs)"
  using partition_point_sorted [of fst xs "\<lambda>a. fst a < k"] by (simp add: lower_bound_key_def)

lemma upper_bound_key_sorted [flat_simps]:
  "sorted (map fst xs) \<Longrightarrow> upper_bound_key k xs = length (filter (\<lambda>a. \<not> k < fst a) xs)"
  using partition_point_sorted [of fst xs "\<lambda>a. \<not> k < fst a"] by (simp add: upper_bound_key_def)

section \<open>flat_set insertion refines set insertion\<close>

lemma hd_strict_sorted_min:
  "sorted_wrt (<) ys \<Longrightarrow> x \<in> set ys \<Longrightarrow> \<forall>y\<in>set ys. x \<le> (y::'a::linorder) \<Longrightarrow> hd ys = x"
  by (cases ys) (auto dest: leD)

lemma sorted_less_filter_split:
  assumes "sorted_wrt (<) (xs :: 'a::linorder list)"
  shows "take (length (filter (\<lambda>y. y < x) xs)) xs = filter (\<lambda>y. y < x) xs"
    and "drop (length (filter (\<lambda>y. y < x) xs)) xs = filter (\<lambda>y. \<not> y < x) xs"
  using sorted_split_filter [of id xs "\<lambda>y. y < x"] assms
  by (simp_all add: strict_sorted_imp_sorted)

lemma flat_set_insert_sorted:
  assumes srt: "sorted_wrt (<) xs"
  shows "flat_set_insert x xs = sorted_list_of_set (insert x (set xs))"
proof -
  let ?lo = "filter (\<lambda>y. y < x) xs" and ?hi = "filter (\<lambda>y. \<not> y < x) xs"
  let ?i = "length ?lo"
  have lb: "lower_bound x xs = ?i"
    using srt by (simp add: lower_bound_sorted strict_sorted_imp_sorted)
  have tk: "take ?i xs = ?lo" and dr: "drop ?i xs = ?hi"
    using sorted_less_filter_split [OF srt] by blast+
  have hi_srt: "sorted_wrt (<) ?hi" using srt by (simp add: sorted_wrt_filter)
  show ?thesis
  proof (cases "x \<in> set xs")
    case True
    then have "x \<in> set ?hi" by simp
    moreover have "\<forall>y\<in>set ?hi. x \<le> y" by auto
    ultimately have "?hi \<noteq> [] \<and> hd ?hi = x"
      using hi_srt hd_strict_sorted_min by fastforce
    then have "?i < length xs \<and> xs ! ?i = x"
      by (metis dr drop_eq_Nil hd_drop_conv_nth not_le)
    then have "flat_set_insert x xs = xs"
      by (simp add: flat_set_insert_def lb Let_def)
    moreover have "sorted_list_of_set (insert x (set xs)) = xs"
      using True srt by (simp add: insert_absorb sorted_list_of_set.idem_if_sorted_distinct
          strict_sorted_imp_sorted strict_sorted_iff)
    ultimately show ?thesis by simp
  next
    case False
    have ins: "?i = length xs \<or> x < xs ! ?i"
    proof (cases "?i < length xs")
      case True
      then have "xs ! ?i \<in> set ?hi" by (metis dr hd_drop_conv_nth drop_eq_Nil not_le list.set_sel(1))
      then show ?thesis using False by auto
    next
      case False
      then show ?thesis by (simp add: le_antisym length_filter_le)
    qed
    have res: "flat_set_insert x xs = ?lo @ x # ?hi"
      using ins by (simp add: flat_set_insert_def lb Let_def tk dr)
    have "sorted_wrt (<) (?lo @ x # ?hi)"
      using srt False by (auto simp: sorted_wrt_append sorted_wrt_filter less_le)
    moreover have "set (?lo @ x # ?hi) = insert x (set xs)" by auto
    ultimately have "sorted_list_of_set (insert x (set xs)) = ?lo @ x # ?hi"
      by (metis sorted_list_of_set.idem_if_sorted_distinct strict_sorted_iff)
    then show ?thesis using res by simp
  qed
qed
section \<open>flat_multimap operations on key-sorted buffers\<close>

text \<open>
  On a buffer sorted by key the two bounds cut it into the entries below, at and
  above the key, so each multimap operation is a filter by key.
\<close>

lemma take_lower_bound_key [flat_simps]:
  "sorted (map fst xs) \<Longrightarrow> take (lower_bound_key k xs) xs = filter (\<lambda>a. fst a < k) xs"
  using sorted_split_filter(1) [of fst xs "\<lambda>a. fst a < k"] by (simp add: lower_bound_key_sorted)

lemma drop_lower_bound_key [flat_simps]:
  "sorted (map fst xs) \<Longrightarrow> drop (lower_bound_key k xs) xs = filter (\<lambda>a. \<not> fst a < k) xs"
  using sorted_split_filter(2) [of fst xs "\<lambda>a. fst a < k"] by (simp add: lower_bound_key_sorted)

lemma take_upper_bound_key [flat_simps]:
  "sorted (map fst xs) \<Longrightarrow> take (upper_bound_key k xs) xs = filter (\<lambda>a. \<not> k < fst a) xs"
  using sorted_split_filter(1) [of fst xs "\<lambda>a. \<not> k < fst a"] by (simp add: upper_bound_key_sorted)

lemma drop_upper_bound_key [flat_simps]:
  "sorted (map fst xs) \<Longrightarrow> drop (upper_bound_key k xs) xs = filter (\<lambda>a. k < fst a) xs"
  using sorted_split_filter(2) [of fst xs "\<lambda>a. \<not> k < fst a"] by (simp add: upper_bound_key_sorted)

lemma filter_key_cong_eq: "filter (\<lambda>a. \<not> k < fst a \<and> \<not> fst a < k) xs = filter (\<lambda>a. fst a = (k::'k::linorder)) xs"
  by (rule filter_cong) auto

lemma equal_range_key_sorted [flat_simps]:
  assumes "sorted (map fst xs)"
  shows "equal_range_key k xs = filter (\<lambda>a. fst a = k) xs"
proof -
  let ?ys = "filter (\<lambda>a. \<not> k < fst a) xs"
  have ys: "sorted (map fst ?ys)" using assms by (rule sorted_filter)
  have "filter (\<lambda>a. fst a < k) ?ys = filter (\<lambda>a. fst a < k) xs"
    by (auto intro: filter_cong)
  then have "lower_bound_key k xs = length (filter (\<lambda>a. fst a < k) ?ys)"
    using assms by (simp add: lower_bound_key_sorted)
  then have "equal_range_key k xs = drop (length (filter (\<lambda>a. fst a < k) ?ys)) ?ys"
    using assms by (simp add: equal_range_key_def take_upper_bound_key)
  also have "\<dots> = filter (\<lambda>a. \<not> fst a < k) ?ys"
    using sorted_split_filter(2) [OF ys, of "\<lambda>a. fst a < k"] by simp
  finally show ?thesis by (simp add: filter_key_cong_eq)
qed

lemma sorted_key_filter_split:
  "sorted (map fst xs) \<Longrightarrow>
   filter (\<lambda>a. fst a < k) xs @ filter (\<lambda>a. k < fst a) xs = filter (\<lambda>a. fst a \<noteq> (k::'k::linorder)) xs"
proof (induction xs)
  case Nil
  then show ?case by simp
next
  case (Cons x xs)
  then have all: "\<forall>y\<in>set xs. fst x \<le> fst y" and IH: "filter (\<lambda>a. fst a < k) xs @ filter (\<lambda>a. k < fst a) xs = filter (\<lambda>a. fst a \<noteq> k) xs"
    by simp_all
  show ?case
  proof (cases "k < fst x")
    case True
    with all have "filter (\<lambda>a. fst a < k) xs = []"
      by (auto simp: filter_empty_conv)
    moreover have "filter (\<lambda>a. k < fst a) xs = filter (\<lambda>a. fst a \<noteq> k) xs"
    proof (rule filter_cong)
      fix a assume "a \<in> set xs"
      with all True have "k < fst a" by (meson less_le_trans)
      then show "(k < fst a) = (fst a \<noteq> k)" by auto
    qed simp
    ultimately show ?thesis using True by (auto dest: order.asym)
  next
    case False
    with IH show ?thesis by auto
  qed
qed

lemma multimap_erase_key_sorted [flat_simps]:
  "sorted (map fst xs) \<Longrightarrow> multimap_erase_key k xs = filter (\<lambda>a. fst a \<noteq> k) xs"
  by (simp add: multimap_erase_key_def multimap_erase_range_def take_lower_bound_key
      drop_upper_bound_key sorted_key_filter_split)

lemma multimap_insert_equal_sorted [flat_simps]:
  "sorted (map fst xs) \<Longrightarrow>
   multimap_insert_equal k v xs = filter (\<lambda>a. \<not> k < fst a) xs @ (k, v) # filter (\<lambda>a. k < fst a) xs"
  by (simp add: multimap_insert_equal_def take_upper_bound_key drop_upper_bound_key)

lemma sorted_multimap_insert_equal:
  "sorted (map fst xs) \<Longrightarrow> sorted (map fst (multimap_insert_equal k v xs))"
  by (auto simp: multimap_insert_equal_sorted sorted_append sorted_filter not_less
      intro: sorted_filter)


text \<open>A flat set of values ordered by a key behaves as the flat set of their keys.\<close>

lemma flat_set_insert_map_mono:
  assumes mono: "\<And>a b. f a < f b \<longleftrightarrow> a < b" and srt: "sorted xs"
  shows "map f (flat_set_insert x xs) = flat_set_insert (f x) (map f xs)"
proof -
  have le: "a \<le> b \<Longrightarrow> f a \<le> f b" for a b using mono [of b a] by (auto simp: not_less [symmetric])
  have srt': "sorted (map f xs)" using srt by (induction xs) (auto intro: le)
  have "filter (\<lambda>y. y < f x) (map f xs) = map f (filter (\<lambda>y. y < x) xs)"
    by (simp add: filter_map comp_def mono)
  then have lb: "lower_bound (f x) (map f xs) = lower_bound x xs"
    using srt srt' by (simp add: lower_bound_sorted)
  show ?thesis
  proof (cases "lower_bound x xs < length xs")
    case True
    then show ?thesis by (auto simp: flat_set_insert_def Let_def lb mono take_map drop_map)
  next
    case False
    moreover have "lower_bound x xs \<le> length xs" using srt by (simp add: lower_bound_sorted)
    ultimately show ?thesis by (auto simp: flat_set_insert_def Let_def lb take_map drop_map)
  qed
qed

end
