(* ===== verification/Calgo_Output.thy ===== *)
theory Calgo_Output
  imports Calgo Flat_Containers
begin

text \<open>
  The wrappers of \<^verbatim>\<open>container_algo.hpp\<close> that read a range or write through an output
  iterator. \<^verbatim>\<open>calgo::iterable\<close> turns a pair of iterators (positions) into a range.
  \<^verbatim>\<open>calgo::back_inserter\<close> and \<^verbatim>\<open>calgo::front_inserter\<close> both return
  \<^verbatim>\<open>std::inserter(container, position)\<close>, an insert iterator: the container and a
  position. Assigning \<open>v\<close> to it calls \<^verbatim>\<open>container.insert(position, v)\<close> and moves the
  position one past the inserted element. The container's \<^verbatim>\<open>insert\<close> with a position is
  a parameter \<open>ins\<close>: \<open>vector_insert\<close> for a \<^verbatim>\<open>std::vector\<close> (insert at that
  position) and \<open>flat_set_insert_hint\<close> for boost's \<^verbatim>\<open>flat_set\<close> (the position is only
  a hint; the element goes to its sorted place unless it is already there). Both are the
  library's documented behaviour. \<open>write_out\<close> is the sequence of assignments an
  algorithm makes through the iterator; \<^verbatim>\<open>calgo::transform\<close> and
  \<^verbatim>\<open>calgo::unique_copy\<close> are what they write.
\<close>

definition iterable :: "nat \<times> nat \<Rightarrow> 'a list \<Rightarrow> 'a list" where
  "iterable r xs = drop (fst r) (take (snd r) xs)"

definition vector_insert :: "'a list \<Rightarrow> nat \<Rightarrow> 'a \<Rightarrow> 'a list \<times> nat" where
  "vector_insert xs p v = (take p xs @ v # drop p xs, Suc p)"

definition flat_set_insert_hint :: "'a::linorder list \<Rightarrow> nat \<Rightarrow> 'a \<Rightarrow> 'a list \<times> nat" where
  "flat_set_insert_hint xs p v = (flat_set_insert v xs, Suc (lower_bound v (flat_set_insert v xs)))"

definition back_inserter :: "'c list \<Rightarrow> 'c list \<times> nat" where
  "back_inserter c = (c, length c)"

definition front_inserter :: "'c list \<Rightarrow> 'c list \<times> nat" where
  "front_inserter c = (c, 0)"

fun write_out :: "('c \<Rightarrow> nat \<Rightarrow> 'a \<Rightarrow> 'c \<times> nat) \<Rightarrow> 'c \<times> nat \<Rightarrow> 'a list \<Rightarrow> 'c \<times> nat" where
  "write_out ins out [] = out"
| "write_out ins (c, p) (v # vs) = write_out ins (ins c p v) vs"

definition transform ::
  "('c \<Rightarrow> nat \<Rightarrow> 'b \<Rightarrow> 'c \<times> nat) \<Rightarrow> 'a list \<Rightarrow> 'c \<times> nat \<Rightarrow> ('a \<Rightarrow> 'b) \<Rightarrow> 'c \<times> nat" where
  "transform ins container out f = write_out ins out (map f container)"

text \<open>
  \<^verbatim>\<open>calgo::erase(container, key)\<close> forwards to the container's \<^verbatim>\<open>erase(key)\<close>, which on
  the program's flat containers removes every entry with that key.
\<close>

definition erase_by_key :: "'k::linorder \<Rightarrow> ('k \<times> 'v) list \<Rightarrow> ('k \<times> 'v) list" where
  "erase_by_key key container = multimap_erase_key key container"

text \<open>\<^verbatim>\<open>std::unique_copy\<close>: copy the first element, then each element unequal to the last one copied.\<close>

fun unique_copy_from :: "'a \<Rightarrow> 'a list \<Rightarrow> 'a list" where
  "unique_copy_from prev [] = []"
| "unique_copy_from prev (x # xs) = (if prev = x then unique_copy_from prev xs else x # unique_copy_from x xs)"

definition unique_copy :: "('c \<Rightarrow> nat \<Rightarrow> 'a \<Rightarrow> 'c \<times> nat) \<Rightarrow> 'a list \<Rightarrow> 'c \<times> nat \<Rightarrow> 'c \<times> nat" where
  "unique_copy ins container out =
     write_out ins out (case container of [] \<Rightarrow> [] | x # xs \<Rightarrow> x # unique_copy_from x xs)"

lemma write_out_vector:
  "p \<le> length xs \<Longrightarrow> write_out vector_insert (xs, p) vs = (take p xs @ vs @ drop p xs, p + length vs)"
proof (induction vs arbitrary: xs p)
  case Nil
  then show ?case by simp
next
  case (Cons v vs)
  let ?ys = "take p xs @ v # drop p xs"
  have l: "Suc p \<le> length ?ys" "length (take p xs) = p" using Cons.prems by simp_all
  have "take (Suc p) ?ys = take p xs @ [v]" "drop (Suc p) ?ys = drop p xs"
    using l(2) by (simp_all add: take_Cons' drop_Cons')
  then show ?case using Cons.IH [OF l(1)] by (simp add: vector_insert_def)
qed

lemma back_inserter_vector: "fst (write_out vector_insert (back_inserter xs) vs) = xs @ vs"
  by (simp add: back_inserter_def write_out_vector)

text \<open>
  Claim C30: \<^verbatim>\<open>calgo::front_inserter\<close> is \<^verbatim>\<open>std::inserter\<close> at \<^verbatim>\<open>begin()\<close>, not
  \<^verbatim>\<open>std::front_inserter\<close>: values written through it land in front of a vector in
  the order they are written, not reversed.
\<close>

theorem front_inserter_vector: "fst (write_out vector_insert (front_inserter xs) vs) = vs @ xs"
  by (simp add: front_inserter_def write_out_vector)

lemma write_out_flat_set: "fst (write_out flat_set_insert_hint (xs, p) vs) = fold flat_set_insert vs xs"
proof (induction vs arbitrary: xs p)
  case Nil
  then show ?case by simp
next
  case (Cons v vs)
  have "write_out flat_set_insert_hint (xs, p) (v # vs) =
      write_out flat_set_insert_hint (flat_set_insert v xs, Suc (lower_bound v (flat_set_insert v xs))) vs"
    by (simp only: write_out.simps flat_set_insert_hint_def)
  then show ?case by (simp only: Cons.IH fold_Cons comp_def)
qed

lemma unique_copy_from_remdups_adj: "x # unique_copy_from x xs = remdups_adj (x # xs)"
  by (induction xs arbitrary: x) auto

text \<open>
  Claim C29: \<^verbatim>\<open>calgo::unique_copy\<close> writes, through any insert iterator, the container
  with each run of equal neighbours reduced to one element.
\<close>

theorem unique_copy_remdups_adj:
  "unique_copy ins container out = write_out ins out (remdups_adj container)"
  by (cases container) (simp_all add: unique_copy_def unique_copy_from_remdups_adj)

lemma unique_copy_back_inserter:
  "fst (unique_copy vector_insert container (back_inserter xs)) = xs @ remdups_adj container"
  by (cases container) (simp_all add: unique_copy_def unique_copy_from_remdups_adj back_inserter_def write_out_vector)

end
