(* ===== verification/Associated_Collection.thy ===== *)
theory Associated_Collection
  imports Calgo_Output
begin

text \<open>
  The class template \<^verbatim>\<open>associated_collection\<close> of
  \<^verbatim>\<open>src/inc/associated_collection.hpp\<close>. Its five containers are the fields of the
  record \<open>associated_collection\<close>; each member function is a function from the
  record to the new record (a function returning \<^verbatim>\<open>foreign_keys_\<close> by reference
  returns the new record, whose \<open>foreign_keys\<close> field is that result).

  An element is modelled by its key: in \<^verbatim>\<open>src/src/main.cpp\<close> \<^verbatim>\<open>dog\<close> and
  \<^verbatim>\<open>cat\<close> hold nothing but their \<^verbatim>\<open>key\<close>, and every comparison of elements
  (\<^verbatim>\<open>operator<\<close>, \<^verbatim>\<open>operator==\<close>) compares keys. The lambdas passed to the
  \<^verbatim>\<open>calgo\<close> algorithms become the named predicates \<open>drop_element_links\<close>,
  \<open>erase_links_pred\<close>, \<open>collapse_pred\<close>, \<open>association_order\<close>,
  \<open>visit_elem_less\<close> and \<open>visit_assoc_less\<close>, each taking the record as the state
  the lambda captures by reference.
\<close>

record ('k, 'f) associated_collection =
  collection :: "'k list"
  associations :: "('k \<times> 'f) list"
  contributors :: "('k \<times> 'f) list"
  keys :: "'k list"
  foreign_keys :: "('f \<times> 'k) list"

type_synonym ('k, 'f) ac = "('k, 'f) associated_collection"

definition empty_collection :: "('k, 'f) ac" where
  "empty_collection =
     \<lparr>collection = [], associations = [], contributors = [], keys = [], foreign_keys = []\<rparr>"

section \<open>Accessors, reserve and emplace\<close>

definition size_ac :: "('k, 'f) ac \<Rightarrow> nat" where
  "size_ac st = length (collection st)"

text \<open>\<^verbatim>\<open>reserve\<close> only changes capacities, which the model does not represent.\<close>

definition reserve :: "nat \<Rightarrow> ('k, 'f) ac \<Rightarrow> ('k, 'f) ac" where
  "reserve new_capacity st = st"

definition emplace :: "'k::linorder \<Rightarrow> ('k, 'f) ac \<Rightarrow> ('k, 'f) ac" where
  "emplace e st = st\<lparr>collection := flat_set_insert e (collection st)\<rparr>"

definition sort_range :: "nat \<Rightarrow> nat \<Rightarrow> 'a::linorder list \<Rightarrow> 'a list" where
  "sort_range lo hi xs = take lo xs @ sort (drop lo (take hi xs)) @ drop hi xs"

definition emplace_association :: "'k::linorder \<Rightarrow> 'f::linorder \<Rightarrow> ('k, 'f) ac \<Rightarrow> ('k, 'f) ac" where
  "emplace_association k f st =
     (let buf = multimap_insert_equal k f (associations st);
          lo = lower_bound_key k buf;
          hi = upper_bound_key k buf
      in st\<lparr>associations := sort_range lo hi buf\<rparr>)"

section \<open>Comparing association ranges and reporting foreign keys\<close>

definition compare_associations :: "'k::linorder \<Rightarrow> 'k \<Rightarrow> ('k, 'f) ac \<Rightarrow> bool" where
  "compare_associations a b st =
     equal_values (equal_range_key a (associations st)) (equal_range_key b (associations st))"

definition inverse_assocations :: "'k::linorder \<Rightarrow> ('k, 'f::linorder) ac \<Rightarrow> (nat \<times> nat) \<times> ('k, 'f) ac" where
  "inverse_assocations key st =
     (let range = (lower_bound_key key (associations st), upper_bound_key key (associations st));
          out = transform flat_set_insert_hint (iterable range (associations st))
                  (back_inserter (foreign_keys st)) reverse
      in (range, st\<lparr>foreign_keys := fst out\<rparr>))"

text \<open>
  The three statements both erasing lambdas run for an element that goes: report its
  links (\<open>inverse_assocations\<close>), erase its range of associations, erase its
  contributors.
\<close>

definition drop_element_links :: "'k::linorder \<Rightarrow> ('k, 'f::linorder) ac \<Rightarrow> ('k, 'f) ac" where
  "drop_element_links k st =
     (case inverse_assocations k st of ((lo, hi), st') \<Rightarrow>
        st'\<lparr>associations := multimap_erase_range lo hi (associations st'),
            contributors := multimap_erase_key k (contributors st')\<rparr>)"

section \<open>Erasing by key\<close>

definition erase_if_ac :: "('k::linorder \<Rightarrow> bool) \<Rightarrow> ('k, 'f::linorder) ac \<Rightarrow> ('k, 'f) ac" where
  "erase_if_ac predicate st =
     (case erase_if (\<lambda>s buf e. if predicate e then (True, drop_element_links e s) else (False, s))
             st (collection st) of
        (st', coll) \<Rightarrow> st'\<lparr>collection := coll\<rparr>)"

definition erase_key :: "'k::linorder \<Rightarrow> ('k, 'f::linorder) ac \<Rightarrow> ('k, 'f) ac" where
  "erase_key k st = erase_if_ac (\<lambda>e. e = k) st"

section \<open>Erasing a set of associations\<close>

text \<open>
  The predicate of the first pass reads \<^verbatim>\<open>associations_.count\<close> while
  \<^verbatim>\<open>std::remove_if\<close> is compacting \<^verbatim>\<open>associations_\<close>: it gets the buffer as
  it is at that moment (\<open>buf\<close>), not the record's field.
\<close>

definition erase_links_pred ::
  "('k \<times> 'f) list \<Rightarrow> ('k::linorder, 'f) ac \<Rightarrow> ('k \<times> 'f) list \<Rightarrow> 'k \<times> 'f \<Rightarrow> bool \<times> ('k, 'f) ac"
where
  "erase_links_pred set_of_assocations s buf v =
     (if contains set_of_assocations v then
        (True, if equals_one (count_key (fst v) buf)
               then s\<lparr>collection := erase_value (collection s) (fst v),
                      contributors := multimap_erase_key (fst v) (contributors s)\<rparr>
               else s)
      else (False, s))"

text \<open>
  The comparator handed to \<^verbatim>\<open>calgo::sort\<close>: true when the association ranges are
  equal, otherwise \<^verbatim>\<open>calgo::value(a.key) < calgo::value(b.key)\<close>, which compares the
  second components of the key tuples (\<^verbatim>\<open>std::get<1>\<close>). It therefore needs keys
  that are pairs.
\<close>

definition association_order ::
  "('k1::linorder \<times> 'k2::linorder, 'f) ac \<Rightarrow> 'k1 \<times> 'k2 \<Rightarrow> 'k1 \<times> 'k2 \<Rightarrow> bool" where
  "association_order st a b = (compare_associations a b st \<or> calgo_value a < calgo_value b)"

definition collapse_pred :: "('k::linorder, 'f::linorder) ac \<Rightarrow> 'k \<Rightarrow> 'k \<Rightarrow> bool \<times> ('k, 'f) ac" where
  "collapse_pred s a b =
     (if compare_associations a b s then (True, drop_element_links b s) else (False, s))"

text \<open>
  \<open>srt\<close> stands for \<^verbatim>\<open>std::sort\<close>. The comparator above is not a strict weak
  ordering (it holds of every element and itself), so the standard does not say what
  order \<^verbatim>\<open>std::sort\<close> produces; the model leaves the routine as a parameter and the
  lemmas assume only that it permutes its input. \<open>std_insertion_sort\<close> (Calgo) is
  what libstdc++ runs on up to 16 elements.
\<close>

definition erase_associations ::
  "((('k1::linorder \<times> 'k2::linorder) \<Rightarrow> ('k1 \<times> 'k2) \<Rightarrow> bool) \<Rightarrow> ('k1 \<times> 'k2) list \<Rightarrow> ('k1 \<times> 'k2) list)
   \<Rightarrow> (('k1 \<times> 'k2) \<times> 'f) list \<Rightarrow> ('k1 \<times> 'k2, 'f::linorder) ac \<Rightarrow> ('k1 \<times> 'k2, 'f) ac"
where
  "erase_associations srt set_of_assocations st =
     (case erase_if (erase_links_pred set_of_assocations) st (associations st) of
        (st1, assocs1) \<Rightarrow>
          (let st2 = st1\<lparr>associations := assocs1\<rparr>;
               st3 = st2\<lparr>collection := srt (association_order st2) (collection st2)\<rparr>
           in case erase_duplicates_if collapse_pred st3 (collection st3) of
                (st4, coll) \<Rightarrow> st4\<lparr>collection := coll\<rparr>))"

section \<open>Visiting the elements linked to a foreign key\<close>

definition visit_elem_less :: "'f \<Rightarrow> 'k::linorder \<Rightarrow> 'k \<times> 'f \<Rightarrow> bool" where
  "visit_elem_less foreign_key a b =
     (if snd b = foreign_key \<and> fst b = a then False else a < fst b)"

definition visit_assoc_less :: "'f \<Rightarrow> 'k \<times> 'f \<Rightarrow> 'k::linorder \<Rightarrow> bool" where
  "visit_assoc_less foreign_key b a =
     (if snd b = foreign_key \<and> fst b = a then False else \<not> a < fst b)"

definition visit :: "'f \<Rightarrow> ('k::linorder, 'f) ac \<Rightarrow> 'k list" where
  "visit foreign_key st =
     set_intersection_by (visit_elem_less foreign_key) (visit_assoc_less foreign_key)
       (collection st) (associations st)"

section \<open>Linking two collections\<close>

definition emplace_associations ::
  "'k1::linorder \<Rightarrow> 'k2::linorder \<Rightarrow> ('k1, 'k2) ac \<Rightarrow> ('k2, 'k1) ac \<Rightarrow> ('k1, 'k2) ac \<times> ('k2, 'k1) ac"
where
  "emplace_associations k1 k2 ac1 ac2 = (emplace_association k1 k2 ac1, emplace_association k2 k1 ac2)"

section \<open>Invariants and set-level specifications\<close>

text \<open>
  \<open>links_wf\<close>: the association table is sorted (by key, then by foreign key), the
  contributors are sorted by key and the reported foreign keys form a flat set (sorted,
  no duplicates). \<open>ac_wf\<close> adds that the element store is a flat set.
  \<open>no_dangling\<close> is invariant I2 of the design: every association belongs to a
  stored element.
\<close>

definition links_wf :: "('k::linorder, 'f::linorder) ac \<Rightarrow> bool" where
  "links_wf st \<longleftrightarrow> sorted (associations st) \<and> sorted (map fst (contributors st))
     \<and> sorted_wrt (<) (foreign_keys st)"

definition ac_wf :: "('k::linorder, 'f::linorder) ac \<Rightarrow> bool" where
  "ac_wf st \<longleftrightarrow> sorted_wrt (<) (collection st) \<and> links_wf st"

definition no_dangling :: "('k, 'f) ac \<Rightarrow> bool" where
  "no_dangling st \<longleftrightarrow> (\<forall>a\<in>set (associations st). fst a \<in> set (collection st))"

definition report_links :: "'k \<Rightarrow> ('k, 'f) ac \<Rightarrow> ('f \<times> 'k) set" where
  "report_links k st = reverse ` set (filter (\<lambda>a. fst a = k) (associations st))"

definition same_links :: "('k \<times> 'f) list \<Rightarrow> 'k \<Rightarrow> 'k \<Rightarrow> bool" where
  "same_links xs a b \<longleftrightarrow>
     map snd (filter (\<lambda>x. fst x = a) xs) = map snd (filter (\<lambda>x. fst x = b) xs)"

text \<open>What erasing a key does, stated on the sets the containers represent.\<close>

definition erase_key_spec :: "'k::linorder \<Rightarrow> ('k, 'f::linorder) ac \<Rightarrow> ('k, 'f) ac" where
  "erase_key_spec k st =
     (if k \<in> set (collection st) then
        st\<lparr>collection := removeAll k (collection st),
           associations := filter (\<lambda>a. fst a \<noteq> k) (associations st),
           contributors := filter (\<lambda>a. fst a \<noteq> k) (contributors st),
           foreign_keys := sorted_list_of_set (set (foreign_keys st) \<union> report_links k st)\<rparr>
      else st)"

section \<open>Lemmas: emplace and emplace_association\<close>

lemma links_wf_collection_update [simp]: "links_wf (st\<lparr>collection := c\<rparr>) = links_wf st"
  by (simp add: links_wf_def)

lemma erase_if_spec_pred:
  "erase_if_spec (\<lambda>s buf e. if P e then (True, g e s) else (False, s)) s orig kept rest =
   (fold g (filter P rest) s, kept @ filter (\<lambda>e. \<not> P e) rest)"
  by (induction rest arbitrary: s kept) auto

lemma sorted_strict_keys: "sorted_wrt (<) xs \<Longrightarrow> sorted xs"
  by (rule strict_sorted_imp_sorted)

lemma fold_flat_set_insert:
  "sorted_wrt (<) ys \<Longrightarrow> fold flat_set_insert xs ys = sorted_list_of_set (set xs \<union> set ys)"
proof (induction xs arbitrary: ys)
  case Nil
  then show ?case
    by (simp add: sorted_list_of_set.idem_if_sorted_distinct strict_sorted_iff)
next
  case (Cons x xs)
  have ins: "flat_set_insert x ys = sorted_list_of_set (insert x (set ys))"
    using Cons.prems by (rule flat_set_insert_sorted)
  then have "sorted_wrt (<) (flat_set_insert x ys)"
    by (simp only: sorted_list_of_set.strict_sorted_key_list_of_set)
  then have "fold flat_set_insert xs (flat_set_insert x ys) =
             sorted_list_of_set (set xs \<union> set (flat_set_insert x ys))"
    by (rule Cons.IH)
  also have "set (flat_set_insert x ys) = insert x (set ys)"
    unfolding ins by (rule sorted_list_of_set.set_sorted_key_list_of_set) simp
  finally show ?case by simp
qed

text \<open>
  Claim C4: on a sorted element store, \<^verbatim>\<open>emplace\<close> yields the sorted list of the
  stored keys together with the new one (a duplicate key is not inserted twice).
\<close>

lemma emplace_collection:
  "sorted_wrt (<) (collection st) \<Longrightarrow>
   collection (emplace e st) = sorted_list_of_set (insert e (set (collection st)))"
  by (simp add: emplace_def flat_set_insert_sorted)

lemma sorted_sort_range_insort:
  assumes "sorted xs"
  shows "sort_range (lower_bound_key k (multimap_insert_equal k f xs))
            (upper_bound_key k (multimap_insert_equal k f xs)) (multimap_insert_equal k f xs)
         = insort (k, f) xs"
proof -
  let ?buf = "multimap_insert_equal k f xs"
  have keys: "sorted (map fst xs)" using assms by (rule sorted_lex_keys)
  then have kb: "sorted (map fst ?buf)" by (rule sorted_multimap_insert_equal)
  have buf: "?buf = filter (\<lambda>a. \<not> k < fst a) xs @ (k, f) # filter (\<lambda>a. k < fst a) xs"
    using keys by (rule multimap_insert_equal_sorted)
  have A: "filter (\<lambda>x. \<not> k < fst x \<and> fst x < k) xs = filter (\<lambda>a. fst a < k) xs"
    by (rule filter_cong) (auto dest: order.asym)
  have B: "filter (\<lambda>x. k < fst x \<and> fst x < k) xs = []"
    by (auto simp: filter_empty_conv dest: order.asym)
  have "filter (\<lambda>a. fst a < k) ?buf = filter (\<lambda>a. fst a < k) xs"
    unfolding buf using A B by simp
  then have lo: "take (lower_bound_key k ?buf) ?buf = filter (\<lambda>a. fst a < k) xs"
    using take_lower_bound_key [OF kb, of k] by simp
  have "filter (\<lambda>a. k < fst a) ?buf = filter (\<lambda>a. k < fst a) xs"
    unfolding buf by (auto intro!: filter_cong dest: order.asym)
  then have hi: "drop (upper_bound_key k ?buf) ?buf = filter (\<lambda>a. k < fst a) xs"
    using drop_upper_bound_key [OF kb, of k] by simp
  have C: "filter (\<lambda>x. \<not> k < fst x \<and> fst x = k) xs = filter (\<lambda>a. fst a = k) xs"
    by (rule filter_cong) auto
  have D: "filter (\<lambda>x. k < fst x \<and> fst x = k) xs = []"
    by (auto simp: filter_empty_conv)
  have "drop (lower_bound_key k ?buf) (take (upper_bound_key k ?buf) ?buf) = equal_range_key k ?buf"
    by (simp only: equal_range_key_def)
  also have "\<dots> = filter (\<lambda>a. fst a = k) ?buf"
    using kb by (rule equal_range_key_sorted)
  also have "\<dots> = filter (\<lambda>a. fst a = k) xs @ [(k, f)]"
    unfolding buf using C D by simp
  finally have mid: "drop (lower_bound_key k ?buf) (take (upper_bound_key k ?buf) ?buf)
             = filter (\<lambda>a. fst a = k) xs @ [(k, f)]" .
  let ?r = "filter (\<lambda>a. fst a < k) xs @ sort (filter (\<lambda>a. fst a = k) xs @ [(k, f)]) @ filter (\<lambda>a. k < fst a) xs"
  have res: "sort_range (lower_bound_key k ?buf) (upper_bound_key k ?buf) ?buf = ?r"
    by (simp add: sort_range_def lo hi mid)
  have "mset ?r = mset ((k, f) # xs)"
  proof -
    have "mset xs = mset (filter (\<lambda>a. fst a < k) xs) + mset (filter (\<lambda>a. fst a = k) xs)
                    + mset (filter (\<lambda>a. k < fst a) xs)"
      by (induction xs) auto
    then show ?thesis by (simp add: add.assoc)
  qed
  moreover have "sorted ?r"
    using assms by (auto simp: sorted_append sorted_wrt_filter intro: less_imp_le lex_less_by_key)
  ultimately have "?r = sort ((k, f) # xs)"
    by (metis properties_for_sort)
  then show ?thesis using res assms by (simp add: sorted_sort_id)
qed

text \<open>
  Claim C3: on a sorted association table, \<^verbatim>\<open>emplace_association\<close> inserts the pair
  at its place in (key, foreign key) order, keeping any equal pair already there.
\<close>

lemma emplace_association_insort:
  "sorted (associations st) \<Longrightarrow>
   associations (emplace_association k f st) = insort (k, f) (associations st)"
  by (simp add: emplace_association_def Let_def sorted_sort_range_insort)

section \<open>Lemmas: reporting, erasing by key, visiting\<close>

text \<open>\<open>inverse_assocations\<close> reports the reversed range into \<^verbatim>\<open>foreign_keys_\<close> one insertion at a time.\<close>

lemma inverse_assocations_fold:
  "inverse_assocations key st =
     ((lower_bound_key key (associations st), upper_bound_key key (associations st)),
      st\<lparr>foreign_keys := fold flat_set_insert
          (map reverse (drop (lower_bound_key key (associations st))
             (take (upper_bound_key key (associations st)) (associations st)))) (foreign_keys st)\<rparr>)"
  by (simp add: inverse_assocations_def transform_def iterable_def back_inserter_def write_out_flat_set)

lemma inverse_assocations_sorted:
  assumes "sorted (map fst (associations st))" "sorted_wrt (<) (foreign_keys st)"
  shows "inverse_assocations k st =
    ((length (filter (\<lambda>a. fst a < k) (associations st)), length (filter (\<lambda>a. \<not> k < fst a) (associations st))),
     st\<lparr>foreign_keys := sorted_list_of_set (set (foreign_keys st) \<union> report_links k st)\<rparr>)"
proof -
  have rng: "drop (lower_bound_key k (associations st)) (take (upper_bound_key k (associations st)) (associations st))
             = filter (\<lambda>a. fst a = k) (associations st)"
    using equal_range_key_sorted [OF assms(1)] by (simp add: equal_range_key_def)
  have "fold flat_set_insert (map reverse (filter (\<lambda>a. fst a = k) (associations st))) (foreign_keys st)
        = sorted_list_of_set (set (foreign_keys st) \<union> report_links k st)"
    using fold_flat_set_insert [OF assms(2)] by (simp add: report_links_def Un_commute)
  then show ?thesis
    using assms(1) rng by (simp add: inverse_assocations_fold lower_bound_key_sorted upper_bound_key_sorted)
qed

lemma drop_element_links_wf:
  assumes "links_wf st"
  shows "drop_element_links k st =
    st\<lparr>associations := filter (\<lambda>a. fst a \<noteq> k) (associations st),
       contributors := filter (\<lambda>a. fst a \<noteq> k) (contributors st),
       foreign_keys := sorted_list_of_set (set (foreign_keys st) \<union> report_links k st)\<rparr>"
proof -
  have keys: "sorted (map fst (associations st))" "sorted_wrt (<) (foreign_keys st)"
    "sorted (map fst (contributors st))"
    using assms by (simp_all add: links_wf_def sorted_lex_keys)
  have "multimap_erase_range (length (filter (\<lambda>a. fst a < k) (associations st)))
          (length (filter (\<lambda>a. \<not> k < fst a) (associations st))) (associations st)
        = filter (\<lambda>a. fst a \<noteq> k) (associations st)"
    using multimap_erase_key_sorted [OF keys(1), of k] keys(1)
    by (simp add: multimap_erase_key_def lower_bound_key_sorted upper_bound_key_sorted)
  then show ?thesis
    using keys by (simp add: drop_element_links_def inverse_assocations_sorted multimap_erase_key_sorted)
qed

lemma links_wf_drop_element_links [ac_inv]: "links_wf st \<Longrightarrow> links_wf (drop_element_links k st)"
  by (simp add: drop_element_links_wf links_wf_def sorted_wrt_filter sorted_filter
      sorted_list_of_set.strict_sorted_key_list_of_set)

lemma erase_if_ac_fold:
  "erase_if_ac P st =
     (fold drop_element_links (filter P (collection st)) st)\<lparr>collection := filter (\<lambda>e. \<not> P e) (collection st)\<rparr>"
  by (simp add: erase_if_ac_def erase_if_eq_spec erase_if_spec_pred)

lemma filter_eq_distinct:
  "distinct xs \<Longrightarrow> filter (\<lambda>e. e = k) xs = (if k \<in> set xs then [k] else [])"
  by (induction xs) (auto simp: filter_empty_conv)

lemma removeAll_eq_filter: "removeAll k xs = filter (\<lambda>e. e \<noteq> k) xs"
  by (induction xs) auto

text \<open>
  The operational form of \<^verbatim>\<open>erase(key)\<close>: the scan over the element store meets
  the key at most once, and then runs the three statements of the lambda.
\<close>

lemma erase_key_cases:
  assumes "sorted_wrt (<) (collection st)"
  shows "erase_key k st =
    (if k \<in> set (collection st)
     then (drop_element_links k st)\<lparr>collection := removeAll k (collection st)\<rparr> else st)"
proof -
  have "distinct (collection st)" using assms by (simp add: strict_sorted_iff)
  then have "filter (\<lambda>e. e = k) (collection st) = (if k \<in> set (collection st) then [k] else [])"
    by (rule filter_eq_distinct)
  moreover have "k \<notin> set (collection st) \<Longrightarrow> filter (\<lambda>e. e \<noteq> k) (collection st) = collection st"
    by (auto simp: filter_id_conv)
  ultimately show ?thesis
    by (simp add: erase_key_def erase_if_ac_fold removeAll_eq_filter)
qed

text \<open>
  Claim C2: on a well-formed collection, \<^verbatim>\<open>erase(key)\<close> removes the element, its
  associations and contributors, and adds its links reversed to the reported set; it
  changes nothing when the key is absent.
\<close>

lemma erase_key_eq_spec:
  assumes "ac_wf st"
  shows "erase_key k st = erase_key_spec k st"
  using assms by (simp add: erase_key_cases ac_wf_def drop_element_links_wf erase_key_spec_def)

text \<open>
  Claim C5: \<^verbatim>\<open>erase(key)\<close> keeps every container sorted and leaves no association
  without its element.
\<close>

lemma erase_key_invariants:
  assumes "ac_wf st" "no_dangling st"
  shows "ac_wf (erase_key k st) \<and> no_dangling (erase_key k st)"
proof -
  have "ac_wf (erase_key k st)"
    using assms(1) links_wf_drop_element_links [of st k]
    by (simp add: erase_key_cases ac_wf_def removeAll_eq_filter sorted_wrt_filter)
  moreover have "no_dangling (erase_key k st)"
    using assms by (auto simp: erase_key_cases ac_wf_def drop_element_links_wf no_dangling_def)
  ultimately show ?thesis ..
qed

lemma visit_merge:
  "c1 = visit_elem_less fk \<Longrightarrow> c2 = visit_assoc_less fk \<Longrightarrow> sorted_wrt (<) xs \<Longrightarrow> sorted (map fst ys) \<Longrightarrow>
   set_intersection_by c1 c2 xs ys = filter (\<lambda>e. (e, fk) \<in> set ys) xs"
proof (induction c1 c2 xs ys rule: set_intersection_by.induct)
  case (1 c1 c2 ys)
  then show ?case by simp
next
  case (2 c1 c2 x xs)
  then show ?case by simp
next
  case (3 c1 c2 x xs y ys)
  have xs_gt: "\<forall>z\<in>set xs. x < z" and ys_ge: "\<forall>b\<in>set ys. fst y \<le> fst b"
    using "3.prems"(3,4) by simp_all
  show ?case
  proof (cases "visit_elem_less fk x y")
    case True
    then have "x < fst y" by (simp add: visit_elem_less_def split: if_splits)
    then have "(x, fk) \<notin> set (y # ys)" using ys_ge by force
    then show ?thesis using True "3.IH"(1) "3.prems" by simp
  next
    case nlt: False
    show ?thesis
    proof (cases "visit_assoc_less fk y x")
      case False
      with nlt have y: "y = (x, fk)"
        by (cases y) (auto simp: visit_elem_less_def visit_assoc_less_def split: if_splits)
      have "filter (\<lambda>e. (e, fk) \<in> set (y # ys)) xs = filter (\<lambda>e. (e, fk) \<in> set ys) xs"
        using xs_gt y by (intro filter_cong) auto
      then show ?thesis using nlt False y "3.IH"(2) "3.prems" by simp
    next
      case True
      with nlt have "fst y \<le> x" "y \<noteq> (x, fk)"
        by (auto simp: visit_elem_less_def visit_assoc_less_def split: if_splits)
      then have "filter (\<lambda>e. (e, fk) \<in> set (y # ys)) (x # xs) = filter (\<lambda>e. (e, fk) \<in> set ys) (x # xs)"
        using xs_gt by (intro filter_cong) (auto dest: leD)
      then show ?thesis using nlt True "3.IH"(3) "3.prems" by simp
    qed
  qed
qed

text \<open>
  Claim C1: on a well-formed collection, \<open>visit\<close> invokes the operation exactly on the
  stored elements that have an association with the foreign key, once each, in key order.
\<close>

lemma visit_correct:
  "ac_wf st \<Longrightarrow> visit fk st = filter (\<lambda>e. (e, fk) \<in> set (associations st)) (collection st)"
  by (simp add: visit_def visit_merge ac_wf_def links_wf_def sorted_lex_keys)


section \<open>Round trip\<close>

lemma removeAll_sorted_insert:
  "sorted_wrt (<) xs \<Longrightarrow> k \<notin> set xs \<Longrightarrow> removeAll k (sorted_list_of_set (insert k (set xs))) = xs"
proof -
  assume s: "sorted_wrt (<) xs" and k: "k \<notin> set xs"
  let ?L = "sorted_list_of_set (insert k (set xs))"
  have L1: "sorted_wrt (<) ?L" by (rule sorted_list_of_set.strict_sorted_key_list_of_set)
  have L2: "set ?L = insert k (set xs)" by (rule sorted_list_of_set.set_sorted_key_list_of_set) simp
  have "sorted_wrt (<) (removeAll k ?L)" using L1 by (simp add: removeAll_filter_not_eq sorted_wrt_filter)
  moreover have "set (removeAll k ?L) = set xs" using L2 k by auto
  ultimately show ?thesis using s
    by (metis sorted_distinct_set_unique strict_sorted_iff)
qed

text \<open>
  Claim C6: \<^verbatim>\<open>erase(key)\<close> undoes \<^verbatim>\<open>emplace\<close> of a new key that has no links
  or contributors: the collection returns to the state it had, reported pairs included.
\<close>

theorem erase_key_emplace_roundtrip:
  assumes "ac_wf st" "k \<notin> set (collection st)"
    "\<forall>a\<in>set (associations st). fst a \<noteq> k" "\<forall>c\<in>set (contributors st). fst c \<noteq> k"
  shows "erase_key k (emplace k st) = st"
proof -
  have coll: "collection (emplace k st) = sorted_list_of_set (insert k (set (collection st)))"
    using assms(1) by (simp add: emplace_def ac_wf_def flat_set_insert_sorted)
  have wf: "links_wf st" and s: "sorted_wrt (<) (collection st)" using assms(1) by (simp_all add: ac_wf_def)
  have "sorted_wrt (<) (collection (emplace k st))"
    unfolding coll by (rule sorted_list_of_set.strict_sorted_key_list_of_set)
  moreover have "k \<in> set (collection (emplace k st))"
    unfolding coll by (subst sorted_list_of_set.set_sorted_key_list_of_set) simp_all
  moreover have "links_wf (emplace k st)" using wf by (simp add: emplace_def)
  moreover have "{a \<in> set (associations st). fst a = k} = {}" using assms(3) by auto
  moreover have "sorted_list_of_set (set (foreign_keys st)) = foreign_keys st"
    using wf by (simp add: links_wf_def sorted_list_of_set.idem_if_sorted_distinct strict_sorted_iff)
  ultimately show ?thesis
    using assms(3,4) removeAll_sorted_insert [OF s assms(2)]
    by (simp add: erase_key_cases drop_element_links_wf coll filter_id_conv report_links_def emplace_def
        flat_set_insert_sorted [OF s])
qed

end
