(* ===== verification/Erase_Associations.thy ===== *)
theory Erase_Associations
  imports Associated_Collection
begin

text \<open>
  What \<^verbatim>\<open>erase(inverse_foreign_type const&)\<close> (\<open>erase_associations\<close>) does on every
  well-formed collection without dangling associations, for any \<^verbatim>\<open>std::sort\<close>
  that permutes its input. The proof follows the three passes of the code:
  \<^item> the \<^verbatim>\<open>calgo::erase_if\<close> pass over the association table
    (\<open>erase_links_pass\<close>): it erases exactly the listed links, and an element it
    erases has no link left, because a count of one in the buffer
    \<^verbatim>\<open>std::remove_if\<close> leaves behind means that every other link of that key was
    erased too (\<open>stale_count_one\<close>); the converse fails (claim
    \<open>erase_associations_stale_count\<close> in the root theory);
  \<^item> the sort, which only permutes the element store;
  \<^item> the \<^verbatim>\<open>calgo::erase_duplicates_if\<close> pass (\<open>collapse_pass\<close>): the state after
    dropping a list of keys is \<open>drop_keys\<close>, and every element it drops has the same
    links as the element kept before it.
  \<open>erase_associations_shape\<close> puts the passes together; the claims are read off
  \<open>erase_associations_facts\<close>.
\<close>

definition drop_keys :: "'k list \<Rightarrow> ('k::linorder, 'f::linorder) ac \<Rightarrow> ('k, 'f) ac" where
  "drop_keys ds st =
     st\<lparr>associations := filter (\<lambda>a. fst a \<notin> set ds) (associations st),
        contributors := filter (\<lambda>a. fst a \<notin> set ds) (contributors st),
        foreign_keys := sorted_list_of_set
          (set (foreign_keys st) \<union> reverse ` set (filter (\<lambda>a. fst a \<in> set ds) (associations st)))\<rparr>"

section \<open>The erasing pass over the association table\<close>

lemma stale_count_one:
  assumes "A = pre @ v # rest" "v \<in> set S"
    "count_key (fst v) (filter (\<lambda>a. a \<notin> set S) pre @ drop (length (filter (\<lambda>a. a \<notin> set S) pre)) A) = 1"
  shows "\<forall>a\<in>set A. fst a = fst v \<longrightarrow> a \<in> set S"
proof -
  let ?kept = "filter (\<lambda>a. a \<notin> set S) pre"
  have "length ?kept \<le> length pre" by simp
  then have "drop (length ?kept) A = drop (length ?kept) pre @ v # rest"
    using assms(1) by simp
  then have "count_key (fst v) ?kept = 0 \<and> count_key (fst v) rest = 0"
    using assms(3) by simp
  then have "\<forall>a\<in>set pre. a \<notin> set S \<longrightarrow> fst a \<noteq> fst v" "\<forall>a\<in>set rest. fst a \<noteq> fst v"
    by (auto simp: count_key_zero_iff)
  then show ?thesis using assms(1,2) by auto
qed

lemma erase_links_pass:
  assumes "sorted (map fst (contributors s0))" "A = pre @ rest"
    "\<forall>k\<in>R. \<forall>a\<in>set A. fst a = k \<longrightarrow> a \<in> set S"
  shows "\<exists>R'. R \<subseteq> R' \<and> (\<forall>k\<in>R'. \<forall>a\<in>set A. fst a = k \<longrightarrow> a \<in> set S) \<and>
    erase_if_spec (erase_links_pred S)
      (s0\<lparr>collection := filter (\<lambda>k. k \<notin> R) (collection s0),
          contributors := filter (\<lambda>c. fst c \<notin> R) (contributors s0)\<rparr>)
      A (filter (\<lambda>a. a \<notin> set S) pre) rest =
    (s0\<lparr>collection := filter (\<lambda>k. k \<notin> R') (collection s0),
        contributors := filter (\<lambda>c. fst c \<notin> R') (contributors s0)\<rparr>,
     filter (\<lambda>a. a \<notin> set S) A)"
  using assms(2,3)
proof (induction rest arbitrary: pre R)
  case Nil
  then show ?case by auto
next
  case (Cons v rest)
  let ?kept = "filter (\<lambda>a. a \<notin> set S) pre"
  let ?buf = "?kept @ drop (length ?kept) A"
  let ?s = "s0\<lparr>collection := filter (\<lambda>k. k \<notin> R) (collection s0),
                contributors := filter (\<lambda>c. fst c \<notin> R) (contributors s0)\<rparr>"
  have A': "A = (pre @ [v]) @ rest" using Cons.prems(1) by simp
  show ?case
  proof (cases "v \<in> set S")
    case False
    then have "?kept @ [v] = filter (\<lambda>a. a \<notin> set S) (pre @ [v])" by simp
    then show ?thesis
      using Cons.IH [OF A' Cons.prems(2)] False by (simp add: erase_links_pred_def)
  next
    case inS: True
    have kept': "?kept = filter (\<lambda>a. a \<notin> set S) (pre @ [v])" using inS by simp
    show ?thesis
    proof (cases "count_key (fst v) ?buf = 1")
      case True
      have all: "\<forall>a\<in>set A. fst a = fst v \<longrightarrow> a \<in> set S"
        using stale_count_one [OF Cons.prems(1) inS True] .
      have srt: "sorted (map fst (filter (\<lambda>c. fst c \<notin> R) (contributors s0)))"
        using assms(1) by (rule sorted_filter)
      have "erase_links_pred S ?s ?buf v =
            (True, s0\<lparr>collection := filter (\<lambda>k. k \<notin> insert (fst v) R) (collection s0),
                      contributors := filter (\<lambda>c. fst c \<notin> insert (fst v) R) (contributors s0)\<rparr>)"
        using inS True srt
        by (simp add: erase_links_pred_def equals_one_def erase_value_filter multimap_erase_key_sorted conj_commute)
      moreover obtain R' where "insert (fst v) R \<subseteq> R' \<and> (\<forall>k\<in>R'. \<forall>a\<in>set A. fst a = k \<longrightarrow> a \<in> set S) \<and>
        erase_if_spec (erase_links_pred S)
          (s0\<lparr>collection := filter (\<lambda>k. k \<notin> insert (fst v) R) (collection s0),
              contributors := filter (\<lambda>c. fst c \<notin> insert (fst v) R) (contributors s0)\<rparr>)
          A (filter (\<lambda>a. a \<notin> set S) (pre @ [v])) rest =
        (s0\<lparr>collection := filter (\<lambda>k. k \<notin> R') (collection s0),
            contributors := filter (\<lambda>c. fst c \<notin> R') (contributors s0)\<rparr>,
         filter (\<lambda>a. a \<notin> set S) A)"
        using Cons.IH [OF A', of "insert (fst v) R"] Cons.prems(2) all by auto
      ultimately show ?thesis using kept' by (auto simp del: filter_append)
    next
      case False
      then have "erase_links_pred S ?s ?buf v = (True, ?s)"
        using inS by (simp add: erase_links_pred_def equals_one_def)
      then show ?thesis
        using Cons.IH [OF A' Cons.prems(2)] kept' by (simp del: filter_append)
    qed
  qed
qed

lemma erase_links_other_keys:
  "\<forall>x\<in>set xs. fst x \<noteq> k \<Longrightarrow> k \<in> set (collection s) \<Longrightarrow>
   k \<in> set (collection (fst (erase_if_spec (erase_links_pred S) s orig kept xs)))"
  by (induction xs arbitrary: s kept) (auto simp: erase_links_pred_def erase_value_filter Let_def)

lemma erase_links_stale_block:
  "\<forall>x\<in>set K. fst x = k \<and> x \<in> set S \<Longrightarrow> 2 \<le> count_key k (kept @ drop (length kept) orig) \<Longrightarrow>
   erase_if_spec (erase_links_pred S) s orig kept K = (s, kept)"
  by (induction K) (auto simp: erase_links_pred_def equals_one_def)

section \<open>The collapsing pass over the element store\<close>

lemma links_wf_drop_keys: "links_wf st \<Longrightarrow> links_wf (drop_keys ds st)"
  by (simp add: drop_keys_def links_wf_def sorted_wrt_filter sorted_filter
      sorted_list_of_set.strict_sorted_key_list_of_set)

lemma drop_keys_Nil: "sorted_wrt (<) (foreign_keys st) \<Longrightarrow> drop_keys [] st = st"
  by (simp add: drop_keys_def sorted_list_of_set.idem_if_sorted_distinct strict_sorted_iff)

lemma drop_element_links_drop_keys:
  assumes "links_wf st"
  shows "drop_element_links k (drop_keys ds st) = drop_keys (k # ds) st"
proof -
  have "set (foreign_keys st) \<union> reverse ` set (filter (\<lambda>a. fst a \<in> set ds) (associations st)) \<union>
        reverse ` set (filter (\<lambda>a. fst a = k \<and> fst a \<notin> set ds) (associations st)) =
        set (foreign_keys st) \<union> reverse ` set (filter (\<lambda>a. fst a = k \<or> fst a \<in> set ds) (associations st))"
    by auto
  then show ?thesis
    using links_wf_drop_keys [OF assms, of ds]
    by (simp add: drop_element_links_wf report_links_def drop_keys_def conj_commute)
qed

lemma same_links_filter:
  "a \<notin> D \<Longrightarrow> b \<notin> D \<Longrightarrow> same_links (filter (\<lambda>x. fst x \<notin> D) xs) a b = same_links xs a b"
proof -
  assume "a \<notin> D" "b \<notin> D"
  then have "filter (\<lambda>x. fst x = a) (filter (\<lambda>x. fst x \<notin> D) xs) = filter (\<lambda>x. fst x = a) xs"
    "filter (\<lambda>x. fst x = b) (filter (\<lambda>x. fst x \<notin> D) xs) = filter (\<lambda>x. fst x = b) xs"
    by (auto intro: filter_cong)
  then show ?thesis by (simp add: same_links_def)
qed

lemma compare_associations_sorted:
  "sorted (map fst (associations st)) \<Longrightarrow> compare_associations a b st = same_links (associations st) a b"
  by (simp add: compare_associations_def equal_range_key_sorted equal_values_iff same_links_def)

lemma same_links_sym: "same_links xs a b = same_links xs b a"
  by (auto simp: same_links_def)

lemma collapse_pass:
  assumes "links_wf st" "distinct (d # xs)" "set ds \<inter> set (d # xs) = {}"
  shows "\<exists>ds'. set ds \<subseteq> set ds' \<and> set ds' - set ds \<subseteq> set xs \<and>
    dedup_from collapse_pred (drop_keys ds st) d xs = (drop_keys ds' st, filter (\<lambda>k. k \<notin> set ds') xs) \<and>
    successively (\<lambda>a b. \<not> same_links (associations st) a b) (d # filter (\<lambda>k. k \<notin> set ds') xs) \<and>
    (\<forall>b\<in>set ds' - set ds. \<exists>k\<in>set (d # filter (\<lambda>k. k \<notin> set ds') xs). same_links (associations st) b k)"
  using assms(2,3)
proof (induction xs arbitrary: d ds)
  case Nil
  then show ?case by auto
next
  case (Cons x xs)
  have keys: "sorted (map fst (associations (drop_keys ds st)))"
    using links_wf_drop_keys [OF assms(1)] by (simp add: links_wf_def sorted_lex_keys)
  have "d \<notin> set ds" "x \<notin> set ds" using Cons.prems(2) by auto
  then have cmp: "compare_associations d x (drop_keys ds st) = same_links (associations st) d x"
    using keys by (simp add: compare_associations_sorted drop_keys_def same_links_filter)
  show ?case
  proof (cases "same_links (associations st) d x")
    case True
    have "distinct (d # xs)" "set (x # ds) \<inter> set (d # xs) = {}" using Cons.prems by auto
    then obtain ds' where IH: "set (x # ds) \<subseteq> set ds' \<and> set ds' - set (x # ds) \<subseteq> set xs \<and>
      dedup_from collapse_pred (drop_keys (x # ds) st) d xs = (drop_keys ds' st, filter (\<lambda>k. k \<notin> set ds') xs) \<and>
      successively (\<lambda>a b. \<not> same_links (associations st) a b) (d # filter (\<lambda>k. k \<notin> set ds') xs) \<and>
      (\<forall>b\<in>set ds' - set (x # ds). \<exists>k\<in>set (d # filter (\<lambda>k. k \<notin> set ds') xs). same_links (associations st) b k)"
      using Cons.IH by blast
    have "collapse_pred (drop_keys ds st) d x = (True, drop_keys (x # ds) st)"
      using True cmp by (simp add: collapse_pred_def drop_element_links_drop_keys [OF assms(1)])
    then show ?thesis using IH True by (intro exI [of _ ds']) (auto simp: same_links_sym)
  next
    case False
    have "distinct (x # xs)" "set ds \<inter> set (x # xs) = {}" using Cons.prems by auto
    then obtain ds' where IH: "set ds \<subseteq> set ds' \<and> set ds' - set ds \<subseteq> set xs \<and>
      dedup_from collapse_pred (drop_keys ds st) x xs = (drop_keys ds' st, filter (\<lambda>k. k \<notin> set ds') xs) \<and>
      successively (\<lambda>a b. \<not> same_links (associations st) a b) (x # filter (\<lambda>k. k \<notin> set ds') xs) \<and>
      (\<forall>b\<in>set ds' - set ds. \<exists>k\<in>set (x # filter (\<lambda>k. k \<notin> set ds') xs). same_links (associations st) b k)"
      using Cons.IH by blast
    have x: "x \<notin> set ds'" using IH Cons.prems by auto
    have "collapse_pred (drop_keys ds st) d x = (False, drop_keys ds st)"
      using False cmp by (simp add: collapse_pred_def)
    then show ?thesis using IH False x by auto
  qed
qed

section \<open>The three passes together\<close>

lemma erase_associations_shape:
  assumes wf: "ac_wf st" and nd: "no_dangling st" and perm: "\<And>c xs. mset (srt c xs) = mset xs"
  obtains R ds xs where
    "mset xs = mset (filter (\<lambda>k. k \<notin> R) (collection st))"
    "\<forall>k\<in>R. \<forall>a\<in>set (associations st). fst a = k \<longrightarrow> a \<in> set S"
    "set ds \<subseteq> set xs"
    "erase_associations srt S st =
       (drop_keys ds (st\<lparr>collection := xs, associations := filter (\<lambda>a. a \<notin> set S) (associations st),
                         contributors := filter (\<lambda>c. fst c \<notin> R) (contributors st)\<rparr>))
         \<lparr>collection := filter (\<lambda>k. k \<notin> set ds) xs\<rparr>"
    "successively (\<lambda>a b. \<not> same_links (filter (\<lambda>a. a \<notin> set S) (associations st)) a b)
       (filter (\<lambda>k. k \<notin> set ds) xs)"
    "\<forall>b\<in>set ds. \<exists>k\<in>set (filter (\<lambda>k. k \<notin> set ds) xs).
       same_links (filter (\<lambda>a. a \<notin> set S) (associations st)) b k"
proof -
  let ?A = "associations st"
  let ?A1 = "filter (\<lambda>a. a \<notin> set S) ?A"
  have lw: "links_wf st" and coll: "sorted_wrt (<) (collection st)" using wf by (simp_all add: ac_wf_def)
  have st0: "st\<lparr>collection := filter (\<lambda>k. k \<notin> {}) (collection st),
                contributors := filter (\<lambda>c. fst c \<notin> {}) (contributors st)\<rparr> = st" by simp
  obtain R where R: "\<forall>k\<in>R. \<forall>a\<in>set ?A. fst a = k \<longrightarrow> a \<in> set S"
    and pass: "erase_if (erase_links_pred S) st ?A =
      (st\<lparr>collection := filter (\<lambda>k. k \<notin> R) (collection st),
          contributors := filter (\<lambda>c. fst c \<notin> R) (contributors st)\<rparr>, ?A1)"
    using erase_links_pass [of st ?A "[]" ?A "{}" S] lw st0
    by (auto simp: links_wf_def erase_if_eq_spec)
  define st2 where "st2 = st\<lparr>collection := filter (\<lambda>k. k \<notin> R) (collection st),
     associations := ?A1, contributors := filter (\<lambda>c. fst c \<notin> R) (contributors st)\<rparr>"
  define xs where "xs = srt (association_order st2) (filter (\<lambda>k. k \<notin> R) (collection st))"
  define st3 where "st3 = st\<lparr>collection := xs, associations := ?A1,
     contributors := filter (\<lambda>c. fst c \<notin> R) (contributors st)\<rparr>"
  have ms: "mset xs = mset (filter (\<lambda>k. k \<notin> R) (collection st))" by (simp add: xs_def perm)
  have "distinct (filter (\<lambda>k. k \<notin> R) (collection st))" using coll by (simp add: strict_sorted_iff)
  then have dist: "distinct xs" using mset_eq_imp_distinct_iff [OF ms] by simp
  have lw3: "links_wf st3"
    using lw by (simp add: st3_def links_wf_def sorted_wrt_filter sorted_filter)
  have run: "erase_associations srt S st = (case erase_duplicates_if collapse_pred st3 xs of (st4, c) \<Rightarrow> st4\<lparr>collection := c\<rparr>)"
    unfolding erase_associations_def pass by (cases st) (simp add: Let_def st2_def xs_def st3_def)
  show ?thesis
  proof (cases xs)
    case Nil
    have "erase_associations srt S st = (drop_keys [] st3)\<lparr>collection := filter (\<lambda>k. k \<notin> set []) xs\<rparr>"
      using lw3 Nil by (simp add: run erase_duplicates_if_eq_spec drop_keys_Nil links_wf_def)
    then show ?thesis using that [OF ms R] Nil by (simp add: st3_def)
  next
    case (Cons x xs')
    obtain ds where ds: "set ds \<subseteq> set xs'"
      "dedup_from collapse_pred (drop_keys [] st3) x xs' = (drop_keys ds st3, filter (\<lambda>k. k \<notin> set ds) xs')"
      "successively (\<lambda>a b. \<not> same_links (associations st3) a b) (x # filter (\<lambda>k. k \<notin> set ds) xs')"
      "\<forall>b\<in>set ds. \<exists>k\<in>set (x # filter (\<lambda>k. k \<notin> set ds) xs'). same_links (associations st3) b k"
      using collapse_pass [OF lw3, of x xs' "[]"] dist Cons by auto
    have x: "x \<notin> set ds" using ds(1) dist Cons by auto
    have "erase_associations srt S st = (drop_keys ds st3)\<lparr>collection := filter (\<lambda>k. k \<notin> set ds) xs\<rparr>"
      using lw3 ds(2) x Cons by (simp add: run erase_duplicates_if_eq_spec drop_keys_Nil links_wf_def)
    moreover have "set ds \<subseteq> set xs" using ds(1) Cons by auto
    ultimately show ?thesis
      using that [OF ms R] ds(3,4) x Cons by (simp add: st3_def)
  qed
qed

lemma erase_associations_kept_links:
  assumes "no_dangling st" "\<forall>k\<in>R. \<forall>a\<in>set (associations st). fst a = k \<longrightarrow> a \<in> set S"
    "a \<in> set (associations st)" "a \<notin> set S"
  shows "fst a \<in> set (collection st) - R"
  using assms by (auto simp: no_dangling_def)

lemma erase_associations_facts:
  assumes "ac_wf st" "no_dangling st" "\<And>c xs. mset (srt c xs) = mset xs"
  shows "associations (erase_associations srt S st) =
      filter (\<lambda>a. a \<notin> set S \<and> fst a \<in> set (collection (erase_associations srt S st))) (associations st)
    \<and> set (foreign_keys (erase_associations srt S st)) = set (foreign_keys st) \<union>
      reverse ` {a \<in> set (associations st). a \<notin> set S \<and> fst a \<notin> set (collection (erase_associations srt S st))}
    \<and> links_wf (erase_associations srt S st) \<and> distinct (collection (erase_associations srt S st))
    \<and> set (collection (erase_associations srt S st)) \<subseteq> set (collection st)
    \<and> successively (\<lambda>a b. \<not> same_links (associations (erase_associations srt S st)) a b)
        (collection (erase_associations srt S st))
    \<and> (\<forall>k\<in>set (collection st) - set (collection (erase_associations srt S st)).
        (\<forall>a\<in>set (associations st). fst a = k \<longrightarrow> a \<in> set S) \<or>
        (\<exists>k'\<in>set (collection (erase_associations srt S st)).
           same_links (filter (\<lambda>a. a \<notin> set S) (associations st)) k k'))"
proof -
  obtain R ds xs where sh: "mset xs = mset (filter (\<lambda>k. k \<notin> R) (collection st))"
    "\<forall>k\<in>R. \<forall>a\<in>set (associations st). fst a = k \<longrightarrow> a \<in> set S"
    "set ds \<subseteq> set xs"
    "erase_associations srt S st =
       (drop_keys ds (st\<lparr>collection := xs, associations := filter (\<lambda>a. a \<notin> set S) (associations st),
                         contributors := filter (\<lambda>c. fst c \<notin> R) (contributors st)\<rparr>))
         \<lparr>collection := filter (\<lambda>k. k \<notin> set ds) xs\<rparr>"
    "successively (\<lambda>a b. \<not> same_links (filter (\<lambda>a. a \<notin> set S) (associations st)) a b)
       (filter (\<lambda>k. k \<notin> set ds) xs)"
    "\<forall>b\<in>set ds. \<exists>k\<in>set (filter (\<lambda>k. k \<notin> set ds) xs).
       same_links (filter (\<lambda>a. a \<notin> set S) (associations st)) b k"
    by (rule erase_associations_shape [OF assms(1-3)])
  let ?A1 = "filter (\<lambda>a. a \<notin> set S) (associations st)"
  let ?r = "erase_associations srt S st"
  have cs: "set xs = set (collection st) - R" using mset_eq_setD [OF sh(1)] by auto
  have "distinct (filter (\<lambda>k. k \<notin> R) (collection st))"
    using assms(1) by (simp add: ac_wf_def strict_sorted_iff)
  then have dx: "distinct xs" using mset_eq_imp_distinct_iff [OF sh(1)] by simp
  have rc: "collection ?r = filter (\<lambda>k. k \<notin> set ds) xs" by (simp add: sh(4))
  have ra: "associations ?r = filter (\<lambda>a. fst a \<notin> set ds) ?A1" by (simp add: sh(4) drop_keys_def)
  have kept: "fst a \<in> set xs" if "a \<in> set (associations st)" "a \<notin> set S" for a
    using erase_associations_kept_links [OF assms(2) sh(2) that] cs by simp
  have links: "associations ?r =
      filter (\<lambda>a. a \<notin> set S \<and> fst a \<in> set (collection ?r)) (associations st)"
    using kept by (auto simp: ra rc intro!: filter_cong)
  have "{a \<in> set ?A1. fst a \<in> set ds} =
        {a \<in> set (associations st). a \<notin> set S \<and> fst a \<notin> set (collection ?r)}"
    using kept by (auto simp: rc)
  then have reports: "set (foreign_keys ?r) = set (foreign_keys st) \<union>
      reverse ` {a \<in> set (associations st). a \<notin> set S \<and> fst a \<notin> set (collection ?r)}"
    by (simp add: sh(4) drop_keys_def)
  have wf: "links_wf ?r"
    using assms(1) by (simp add: sh(4) ac_wf_def links_wf_def sorted_wrt_filter sorted_filter drop_keys_def
        sorted_list_of_set.strict_sorted_key_list_of_set)
  have adj: "successively (\<lambda>a b. \<not> same_links (associations ?r) a b) (collection ?r)"
    using sh(5) unfolding rc
    by (rule successively_mono) (simp add: ra same_links_filter del: filter_filter)
  have just: "\<forall>k\<in>set (collection st) - set (collection ?r).
      (\<forall>a\<in>set (associations st). fst a = k \<longrightarrow> a \<in> set S) \<or>
      (\<exists>k'\<in>set (collection ?r). same_links ?A1 k k')"
    using sh(2,6) cs by (auto simp: rc)
  show ?thesis
    using links reports wf dx cs adj just by (simp add: rc)
qed

section \<open>Properties of erase(set)\<close>

text \<open>
  Claim C8: \<^verbatim>\<open>erase(set)\<close> keeps exactly the associations that are not in the set and
  whose element survives, in table order.
\<close>

theorem erase_associations_links:
  assumes "ac_wf st" "no_dangling st" "\<And>c xs. mset (srt c xs) = mset xs"
  shows "associations (erase_associations srt S st) =
    filter (\<lambda>a. a \<notin> set S \<and> fst a \<in> set (collection (erase_associations srt S st))) (associations st)"
  using erase_associations_facts [where srt = srt and S = S and st = st, OF assms] by blast

text \<open>
  Claim C9: \<^verbatim>\<open>erase(set)\<close> keeps invariant I2 (no association without its element),
  keeps the association table, contributors and reported pairs sorted, and leaves the
  element store duplicate-free and a subset of what it was.
\<close>

theorem erase_associations_invariants:
  assumes "ac_wf st" "no_dangling st" "\<And>c xs. mset (srt c xs) = mset xs"
  shows "no_dangling (erase_associations srt S st) \<and> links_wf (erase_associations srt S st) \<and>
    distinct (collection (erase_associations srt S st)) \<and>
    set (collection (erase_associations srt S st)) \<subseteq> set (collection st)"
proof -
  have "associations (erase_associations srt S st) =
      filter (\<lambda>a. a \<notin> set S \<and> fst a \<in> set (collection (erase_associations srt S st))) (associations st)"
    "links_wf (erase_associations srt S st)" "distinct (collection (erase_associations srt S st))"
    "set (collection (erase_associations srt S st)) \<subseteq> set (collection st)"
    using erase_associations_facts [where srt = srt and S = S and st = st, OF assms] by blast+
  then show ?thesis by (auto simp: no_dangling_def)
qed

text \<open>
  Claim C10: the pairs \<^verbatim>\<open>erase(set)\<close> adds to \<^verbatim>\<open>foreign_keys_\<close> are the links,
  reversed, of the elements it erases, apart from the links the caller asked to erase.
\<close>

theorem erase_associations_reports:
  assumes "ac_wf st" "no_dangling st" "\<And>c xs. mset (srt c xs) = mset xs"
  shows "set (foreign_keys (erase_associations srt S st)) = set (foreign_keys st) \<union>
    reverse ` {a \<in> set (associations st). a \<notin> set S \<and> fst a \<notin> set (collection (erase_associations srt S st))}"
  using erase_associations_facts [where srt = srt and S = S and st = st, OF assms] by blast

text \<open>
  Claim C11: after \<^verbatim>\<open>erase(set)\<close> no two neighbouring elements of the store have the
  same links: this is what \<^verbatim>\<open>std::unique\<close> guarantees, whatever order the sort left.
\<close>

theorem erase_associations_adjacent:
  assumes "ac_wf st" "no_dangling st" "\<And>c xs. mset (srt c xs) = mset xs"
  shows "successively (\<lambda>a b. \<not> same_links (associations (erase_associations srt S st)) a b)
    (collection (erase_associations srt S st))"
  using erase_associations_facts [where srt = srt and S = S and st = st, OF assms] by blast

text \<open>
  Claim C12: every element \<^verbatim>\<open>erase(set)\<close> removes either had all its links in the
  set, or has, after the erased links are gone, the same links as an element that stays.
\<close>

theorem erase_associations_justified:
  assumes "ac_wf st" "no_dangling st" "\<And>c xs. mset (srt c xs) = mset xs"
  shows "\<forall>k\<in>set (collection st) - set (collection (erase_associations srt S st)).
    (\<forall>a\<in>set (associations st). fst a = k \<longrightarrow> a \<in> set S) \<or>
    (\<exists>k'\<in>set (collection (erase_associations srt S st)).
       same_links (filter (\<lambda>a. a \<notin> set S) (associations st)) k k')"
  using erase_associations_facts [where srt = srt and S = S and st = st, OF assms] by blast

text \<open>
  Claim C7: the count in the first pass is stale. \<^verbatim>\<open>associations_.count(key)\<close> is read
  while \<^verbatim>\<open>std::remove_if\<close> is running, on a buffer that still holds the links already
  removed. So an element with two or more links, all of them in the set, is never erased
  by the first pass, although the pass removes every one of its links: the
  \<^verbatim>\<open>equals_one\<close> test never sees a count of 1. Invariant I3 of the design then holds
  only if the collapse pass happens to remove the element.
\<close>

theorem erase_links_stale_count:
  assumes "sorted (associations st)" "2 \<le> count_key k (associations st)"
    "\<forall>a\<in>set (associations st). fst a = k \<longrightarrow> a \<in> set S" "k \<in> set (collection st)"
  shows "k \<in> set (collection (fst (erase_if (erase_links_pred S) st (associations st)))) \<and>
    count_key k (snd (erase_if (erase_links_pred S) st (associations st))) = 0"
proof -
  let ?A = "associations st" and ?P = "erase_links_pred S"
  let ?pre = "filter (\<lambda>a. fst a < k) ?A" and ?K = "filter (\<lambda>a. fst a = k) ?A"
    and ?post = "filter (\<lambda>a. k < fst a) ?A"
  have srt: "sorted (map fst ?A)" using assms(1) by (rule sorted_lex_keys)
  have split: "?A = ?pre @ ?K @ ?post" by (rule sorted_key_split3 [OF srt])
  have dec: "\<And>s b x. fst (?P s b x) = (x \<in> set S)" by (simp add: erase_links_pred_def)
  obtain s1 kept1 where pre: "erase_if_spec ?P st ?A [] ?pre = (s1, kept1)" by fastforce
  have kept1: "kept1 = filter (\<lambda>a. a \<notin> set S) ?pre"
    using erase_if_spec_decided [of ?P "\<lambda>x. x \<in> set S" st ?A "[]" ?pre, OF dec] pre by simp
  have s1: "k \<in> set (collection s1)"
    using erase_links_other_keys [of ?pre k st S ?A "[]"] assms(4) pre by auto
  have "length kept1 \<le> length ?pre" using kept1 by (simp del: filter_filter)
  then have "drop (length kept1) ?A = drop (length kept1) ?pre @ ?K @ ?post"
    by (subst split) simp
  then have "count_key k ?K \<le> count_key k (kept1 @ drop (length kept1) ?A)" by simp
  moreover have "count_key k ?K = count_key k ?A" by (simp add: count_key_def)
  ultimately have blk: "erase_if_spec ?P s1 ?A kept1 ?K = (s1, kept1)"
    using erase_links_stale_block [of ?K k S] assms(2,3) by auto
  have "fst (erase_if ?P st ?A) = fst (erase_if_spec ?P s1 ?A kept1 ?post)"
    using pre blk by (subst erase_if_eq_spec, subst split) (simp add: erase_if_spec_append)
  then have "k \<in> set (collection (fst (erase_if ?P st ?A)))"
    using erase_links_other_keys [of ?post k s1 S ?A kept1] s1 by auto
  moreover have "snd (erase_if ?P st ?A) = filter (\<lambda>a. a \<notin> set S) ?A"
    using erase_if_spec_decided [of ?P "\<lambda>x. x \<in> set S" st ?A "[]" ?A, OF dec] by (simp add: erase_if_eq_spec)
  then have "count_key k (snd (erase_if ?P st ?A)) = 0"
    using assms(3) by (auto simp: count_key_zero_iff)
  ultimately show ?thesis by simp
qed

end
