(* ===== verification/Task_Queue.thy ===== *)
theory Task_Queue
  imports Prelude "HOL-Library.Word"
begin

text \<open>
  The work-stealing thread pool of \<^verbatim>\<open>src/inc/task_queue.hpp\<close>.
  \<^item> \<open>notification_queue\<close> is the class of that name without its mutex and
    condition variable: every member function runs under the mutex, so each is one
    atomic step here. Whether \<^verbatim>\<open>std::try_to_lock\<close> gets the mutex is the argument
    \<open>got_lock\<close>: the model does not decide it, so every theorem holds for every
    schedule of lock contention. \<open>pop\<close> returns \<open>Pop_waits\<close> where the code calls
    \<^verbatim>\<open>ready.wait\<close>.
  \<^item> \<open>task_system\<close> holds the pool: \<^verbatim>\<open>count\<close>, \<^verbatim>\<open>k_bound\<close> and the atomic
    \<^verbatim>\<open>index\<close> as 32-bit words (\<^verbatim>\<open>unsigned\<close>), the queues, where each thread is
    in \<^verbatim>\<open>run\<close> (\<open>worker\<close>: at the top of the loop, blocked in \<^verbatim>\<open>ready.wait\<close>,
    woken by a notification, returned), the tasks \<^verbatim>\<open>func()\<close> was called on, and,
    as a ghost for the statements, the tasks handed to \<^verbatim>\<open>async\<close>.
  \<^item> Thread \<open>i\<close> only ever waits on queue \<open>i\<close> (\<^verbatim>\<open>notifications[i].pop\<close>), so
    \<^verbatim>\<open>notify_one\<close> and \<^verbatim>\<open>notify_all\<close> on queue \<open>j\<close> both wake thread \<open>j\<close> if
    it waits (\<open>notify_one\<close>). Spurious wake-ups, which the standard allows but never
    promises, are not steps of the model.
  \<^item> \<open>worker_step\<close> is one pass of the loop of \<^verbatim>\<open>run\<close> (or the re-check after a
    wake-up), \<open>client_step\<close> one \<^verbatim>\<open>async\<close> or one \<^verbatim>\<open>done\<close> of the destructor,
    \<open>reach\<close> the states an interleaving of them reaches from the constructor.
  \<^item> \<^verbatim>\<open>i % count\<close> with \<^verbatim>\<open>count = 0\<close> is undefined behaviour; \<open>async\<close> returns
    \<open>Inl Division_by_zero\<close> there.
\<close>

section \<open>notification_queue\<close>

record 't notification_queue =
  queue :: "'t list"
  finished :: bool

definition empty_queue :: "'t notification_queue" where
  "empty_queue = \<lparr>queue = [], finished = False\<rparr>"

definition try_pop :: "bool \<Rightarrow> 't notification_queue \<Rightarrow> 't option \<times> 't notification_queue" where
  "try_pop got_lock q =
     (if \<not> got_lock \<or> queue q = [] then (None, q)
      else (Some (hd (queue q)), q\<lparr>queue := tl (queue q)\<rparr>))"

datatype 't pop_outcome = Popped 't | Pop_failed | Pop_waits

definition pop :: "'t notification_queue \<Rightarrow> 't pop_outcome \<times> 't notification_queue" where
  "pop q =
     (if queue q = [] \<and> \<not> finished q then (Pop_waits, q)
      else if queue q = [] then (Pop_failed, q)
      else (Popped (hd (queue q)), q\<lparr>queue := tl (queue q)\<rparr>))"

definition try_push :: "bool \<Rightarrow> 't \<Rightarrow> 't notification_queue \<Rightarrow> bool \<times> 't notification_queue" where
  "try_push got_lock func q =
     (if \<not> got_lock then (False, q) else (True, q\<lparr>queue := queue q @ [func]\<rparr>))"

definition push :: "'t \<Rightarrow> 't notification_queue \<Rightarrow> 't notification_queue" where
  "push func q = q\<lparr>queue := queue q @ [func]\<rparr>"

definition done_nq :: "'t notification_queue \<Rightarrow> 't notification_queue" where
  "done_nq q = q\<lparr>finished := True\<rparr>"

section \<open>task_system\<close>

datatype worker = Idle | Waiting | Woken | Exited

datatype error = Division_by_zero

record 't task_system =
  count_ts :: "32 word"
  k_bound :: "32 word"
  index :: "32 word"
  notifications :: "'t notification_queue list"
  workers :: "worker list"
  executed :: "'t list"
  submitted :: "'t list"

definition init_ts :: "32 word \<Rightarrow> 32 word \<Rightarrow> 't task_system" where
  "init_ts c k =
     \<lparr>count_ts = c, k_bound = k, index = 0, notifications = replicate (unat c) empty_queue,
      workers = replicate (unat c) Idle, executed = [], submitted = []\<rparr>"

definition notify_one :: "nat \<Rightarrow> worker list \<Rightarrow> worker list" where
  "notify_one j ws = (if j < length ws \<and> ws ! j = Waiting then ws[j := Woken] else ws)"

definition update_queue :: "nat \<Rightarrow> 't notification_queue \<Rightarrow> 't task_system \<Rightarrow> 't task_system" where
  "update_queue j q s = s\<lparr>notifications := (notifications s)[j := q]\<rparr>"

fun try_push_loop ::
  "(32 word \<Rightarrow> bool) \<Rightarrow> 't \<Rightarrow> 32 word \<Rightarrow> 32 word \<Rightarrow> nat \<Rightarrow> 't task_system \<Rightarrow> 't task_system option"
where
  "try_push_loop got_lock work i n 0 s = None"
| "try_push_loop got_lock work i n (Suc m) s =
     (let j = unat ((i + n) mod count_ts s) in
      case try_push (got_lock n) work (notifications s ! j) of
        (True, q) \<Rightarrow> Some ((update_queue j q s)\<lparr>workers := notify_one j (workers s)\<rparr>)
      | (False, _) \<Rightarrow> try_push_loop got_lock work i (n + 1) m s)"

definition async :: "(32 word \<Rightarrow> bool) \<Rightarrow> 't \<Rightarrow> 't task_system \<Rightarrow> error + 't task_system" where
  "async got_lock work s =
     (let i = index s;
          s1 = s\<lparr>index := i + 1, submitted := submitted s @ [work]\<rparr>
      in case try_push_loop got_lock work i 0 (unat (count_ts s * k_bound s)) s1 of
           Some s2 \<Rightarrow> Inr s2
         | None \<Rightarrow>
             if count_ts s = 0 then Inl Division_by_zero
             else (let j = unat (i mod count_ts s) in
                   Inr (update_queue j (push work (notifications s1 ! j)) s1)))"

fun sweep ::
  "(32 word \<Rightarrow> bool) \<Rightarrow> 32 word \<Rightarrow> 32 word \<Rightarrow> nat \<Rightarrow> 't task_system \<Rightarrow> ('t \<times> 't task_system) option"
where
  "sweep got_lock i n 0 s = None"
| "sweep got_lock i n (Suc m) s =
     (let j = unat ((i + n) mod count_ts s) in
      case try_pop (got_lock n) (notifications s ! j) of
        (Some func, q) \<Rightarrow> Some (func, update_queue j q s)
      | (None, _) \<Rightarrow> sweep got_lock i (n + 1) m s)"

definition pop_own :: "nat \<Rightarrow> 't task_system \<Rightarrow> 't task_system" where
  "pop_own i s =
     (case pop (notifications s ! i) of
        (Popped func, q) \<Rightarrow>
          (update_queue i q s)\<lparr>workers := (workers s)[i := Idle], executed := executed s @ [func]\<rparr>
      | (Pop_failed, _) \<Rightarrow> s\<lparr>workers := (workers s)[i := Exited]\<rparr>
      | (Pop_waits, _) \<Rightarrow> s\<lparr>workers := (workers s)[i := Waiting]\<rparr>)"

definition run_iteration :: "(32 word \<Rightarrow> bool) \<Rightarrow> nat \<Rightarrow> 't task_system \<Rightarrow> 't task_system" where
  "run_iteration got_lock i s =
     (case sweep got_lock (of_nat i) 0 (unat (count_ts s)) s of
        Some (func, s') \<Rightarrow> s'\<lparr>executed := executed s' @ [func]\<rparr>
      | None \<Rightarrow> pop_own i s)"

definition done_at :: "nat \<Rightarrow> 't task_system \<Rightarrow> 't task_system" where
  "done_at j s =
     (update_queue j (done_nq (notifications s ! j)) s)\<lparr>workers := notify_one j (workers s)\<rparr>"

section \<open>The interleaving of the threads\<close>

inductive worker_step :: "'t task_system \<Rightarrow> 't task_system \<Rightarrow> bool" where
  run: "i < length (workers s) \<Longrightarrow> workers s ! i = Idle \<Longrightarrow> worker_step s (run_iteration got_lock i s)"
| wake: "i < length (workers s) \<Longrightarrow> workers s ! i = Woken \<Longrightarrow> worker_step s (pop_own i s)"

inductive client_step :: "'t task_system \<Rightarrow> 't task_system \<Rightarrow> bool" where
  async: "async got_lock work s = Inr s' \<Longrightarrow> client_step s s'"
| finish: "j < length (notifications s) \<Longrightarrow> client_step s (done_at j s)"

inductive reach :: "32 word \<Rightarrow> 32 word \<Rightarrow> 't task_system \<Rightarrow> bool" for c k where
  start: "reach c k (init_ts c k)"
| worker: "reach c k s \<Longrightarrow> worker_step s s' \<Longrightarrow> reach c k s'"
| client: "reach c k s \<Longrightarrow> client_step s s' \<Longrightarrow> reach c k s'"

definition worker_ok :: "worker \<Rightarrow> 't notification_queue \<Rightarrow> bool" where
  "worker_ok w q \<longleftrightarrow> (w = Waiting \<longrightarrow> \<not> finished q) \<and> (w = Exited \<longrightarrow> finished q)"

definition ts_inv :: "'t task_system \<Rightarrow> bool" where
  "ts_inv s \<longleftrightarrow> length (notifications s) = unat (count_ts s) \<and> length (workers s) = unat (count_ts s) \<and>
     mset (submitted s) = mset (executed s) + mset (concat (map queue (notifications s))) \<and>
     list_all2 worker_ok (workers s) (notifications s)"

definition work_left :: "'t task_system \<Rightarrow> nat" where
  "work_left s = length (concat (map queue (notifications s))) + length (filter (\<lambda>w. w \<noteq> Exited) (workers s))"

definition drained_exits :: "'t task_system \<Rightarrow> bool" where
  "drained_exits s \<longleftrightarrow> list_all2 (\<lambda>w q. w = Exited \<longrightarrow> queue q = []) (workers s) (notifications s)"

text \<open>
  A pool with one thread and \<open>k_bound = 1\<close>: the thread finds no task and waits on its
  queue, then \<^verbatim>\<open>async\<close> fails its one \<^verbatim>\<open>try_push\<close> and falls back to
  \<^verbatim>\<open>push\<close>.
\<close>

definition waiting_pool :: "nat task_system" where
  "waiting_pool = run_iteration (\<lambda>_. False) 0 (init_ts 1 1)"

definition lost_wakeup_state :: "nat task_system" where
  "lost_wakeup_state = projr (async (\<lambda>_. False) 7 waiting_pool)"

section \<open>One pass of a loop\<close>

lemma sweep_Some:
  assumes "sweep gl i n m s = Some (func, s')" "count_ts s \<noteq> 0"
    "length (notifications s) = unat (count_ts s)"
  shows "\<exists>j<length (notifications s). queue (notifications s ! j) = func # tl (queue (notifications s ! j)) \<and>
    s' = update_queue j ((notifications s ! j)\<lparr>queue := tl (queue (notifications s ! j))\<rparr>) s"
  using assms(1)
proof (induction m arbitrary: n)
  case 0
  then show ?case by simp
next
  case (Suc m)
  let ?j = "unat ((i + n) mod count_ts s)"
  have j: "?j < length (notifications s)"
    using assms(2,3) by (simp add: word_mod_less_divisor unat_mono word_neq_0_conv)
  show ?case
  proof (cases "gl n \<and> queue (notifications s ! ?j) \<noteq> []")
    case True
    then show ?thesis using Suc.prems j
      by (intro exI [of _ ?j]) (auto simp: try_pop_def Let_def neq_Nil_conv)
  next
    case False
    then have "sweep gl i (n + 1) m s = Some (func, s')"
      using Suc.prems by (auto simp: try_pop_def Let_def)
    then show ?thesis by (rule Suc.IH)
  qed
qed

lemma try_push_loop_Some:
  assumes "try_push_loop gl w i n m s = Some s'" "count_ts s \<noteq> 0"
    "length (notifications s) = unat (count_ts s)"
  shows "\<exists>j<length (notifications s).
    s' = (update_queue j ((notifications s ! j)\<lparr>queue := queue (notifications s ! j) @ [w]\<rparr>) s)
           \<lparr>workers := notify_one j (workers s)\<rparr>"
  using assms(1)
proof (induction m arbitrary: n)
  case 0
  then show ?case by simp
next
  case (Suc m)
  let ?j = "unat ((i + n) mod count_ts s)"
  have j: "?j < length (notifications s)"
    using assms(2,3) by (simp add: word_mod_less_divisor unat_mono word_neq_0_conv)
  show ?case
  proof (cases "gl n")
    case True
    then show ?thesis using Suc.prems j
      by (intro exI [of _ ?j]) (auto simp: try_push_def Let_def)
  next
    case False
    then have "try_push_loop gl w i (n + 1) m s = Some s'"
      using Suc.prems by (auto simp: try_push_def Let_def)
    then show ?thesis by (rule Suc.IH)
  qed
qed

lemma try_push_loop_None: "(\<And>n. \<not> gl n) \<Longrightarrow> try_push_loop gl w i n m s = None"
  by (induction m arbitrary: n) (simp_all add: try_push_def Let_def)

lemma try_push_loop_index:
  "try_push_loop gl w i n m s = Some s' \<Longrightarrow> index s' = index s"
  by (induction m arbitrary: n) (auto simp: try_push_def update_queue_def Let_def split: if_splits)

lemma async_fields:
  assumes "async gl w s = Inr s'" "length (notifications s) = unat (count_ts s)"
  shows "\<exists>j<length (notifications s).
    notifications s' = (notifications s)[j := (notifications s ! j)\<lparr>queue := queue (notifications s ! j) @ [w]\<rparr>] \<and>
    (workers s' = workers s \<or> workers s' = notify_one j (workers s)) \<and>
    executed s' = executed s \<and> submitted s' = submitted s @ [w] \<and> index s' = index s + 1 \<and>
    count_ts s' = count_ts s \<and> k_bound s' = k_bound s"
proof -
  let ?s1 = "s\<lparr>index := index s + 1, submitted := submitted s @ [w]\<rparr>"
  have c: "count_ts s \<noteq> 0"
    using assms(1) by (auto simp: async_def Let_def split: option.splits if_splits)
  show ?thesis
  proof (cases "try_push_loop gl w (index s) 0 (unat (count_ts s * k_bound s)) ?s1")
    case None
    let ?j = "unat (index s mod count_ts s)"
    have "?j < length (notifications s)"
      using c assms(2) by (simp add: word_mod_less_divisor unat_mono word_neq_0_conv)
    then show ?thesis using None c assms(1)
      by (intro exI [of _ ?j]) (auto simp: async_def Let_def update_queue_def push_def)
  next
    case (Some s2)
    obtain j where "j < length (notifications ?s1)"
      "s2 = (update_queue j ((notifications ?s1 ! j)\<lparr>queue := queue (notifications ?s1 ! j) @ [w]\<rparr>) ?s1)
           \<lparr>workers := notify_one j (workers ?s1)\<rparr>"
      using try_push_loop_Some [OF Some] c assms(2) by auto
    then show ?thesis using Some assms(1)
      by (intro exI [of _ j]) (auto simp: async_def update_queue_def)
  qed
qed

lemma pop_own_cases:
  assumes "i < length (notifications s)"
  obtains (take) x rest where "queue (notifications s ! i) = x # rest"
      "pop_own i s = s\<lparr>notifications := (notifications s)[i := (notifications s ! i)\<lparr>queue := rest\<rparr>],
                        workers := (workers s)[i := Idle], executed := executed s @ [x]\<rparr>"
  | (exit) "queue (notifications s ! i) = []" "finished (notifications s ! i)"
      "pop_own i s = s\<lparr>workers := (workers s)[i := Exited]\<rparr>"
  | (wait) "queue (notifications s ! i) = []" "\<not> finished (notifications s ! i)"
      "pop_own i s = s\<lparr>workers := (workers s)[i := Waiting]\<rparr>"
proof (cases "queue (notifications s ! i)")
  case Nil
  then show ?thesis using that(2,3) by (cases "finished (notifications s ! i)") (simp_all add: pop_own_def pop_def)
next
  case (Cons x rest)
  then show ?thesis using that(1) by (simp add: pop_own_def pop_def update_queue_def)
qed

section \<open>The invariant of the pool\<close>

lemma mset_queues_append:
  "j < length qs \<Longrightarrow>
   mset (concat (map queue (qs[j := (qs ! j)\<lparr>queue := queue (qs ! j) @ [w]\<rparr>]))) =
   add_mset w (mset (concat (map queue qs)))"
  using mset_concat_map_update [of j qs queue "(qs ! j)\<lparr>queue := queue (qs ! j) @ [w]\<rparr>"] by simp

lemma mset_queues_take:
  "j < length qs \<Longrightarrow> queue (qs ! j) = x # rest \<Longrightarrow>
   add_mset x (mset (concat (map queue (qs[j := (qs ! j)\<lparr>queue := rest\<rparr>])))) = mset (concat (map queue qs))"
  using mset_concat_map_update [of j qs queue "(qs ! j)\<lparr>queue := rest\<rparr>"] by simp

lemma worker_ok_simps [simp]:
  "worker_ok w (q\<lparr>queue := xs\<rparr>) = worker_ok w q"
  "worker_ok Idle q" "worker_ok Woken q"
  "worker_ok Waiting q \<longleftrightarrow> \<not> finished q" "worker_ok Exited q \<longleftrightarrow> finished q"
  by (simp_all add: worker_ok_def)

lemma list_all2_worker_queue:
  "list_all2 worker_ok ws qs \<Longrightarrow> list_all2 worker_ok ws (qs[j := (qs ! j)\<lparr>queue := xs\<rparr>])"
  by (cases "j < length qs") (simp_all add: list_all2_conv_all_nth nth_list_update)

lemma list_all2_notify_one:
  "list_all2 worker_ok ws qs \<Longrightarrow> list_all2 worker_ok (notify_one j ws) qs"
  by (auto simp: notify_one_def list_all2_conv_all_nth nth_list_update)

lemma list_all2_worker_set:
  "list_all2 worker_ok ws qs \<Longrightarrow> worker_ok w (qs ! i) \<Longrightarrow> list_all2 worker_ok (ws[i := w]) qs"
  by (cases "i < length qs") (simp_all add: list_all2_conv_all_nth nth_list_update)

lemma map_queue_finished_update:
  "j < length qs \<Longrightarrow> map queue (qs[j := (qs ! j)\<lparr>finished := b\<rparr>]) = map queue qs"
  by (simp add: map_update list_update_same_conv)

lemma ts_inv_init: "ts_inv (init_ts c k)"
  by (simp add: ts_inv_def init_ts_def empty_queue_def list_all2_conv_all_nth)

lemma ts_inv_async:
  assumes "ts_inv s" "async gl w s = Inr s'"
  shows "ts_inv s'"
proof -
  obtain j where j: "j < length (notifications s)"
    "notifications s' = (notifications s)[j := (notifications s ! j)\<lparr>queue := queue (notifications s ! j) @ [w]\<rparr>]"
    "workers s' = workers s \<or> workers s' = notify_one j (workers s)"
    "executed s' = executed s" "submitted s' = submitted s @ [w]" "count_ts s' = count_ts s"
    using async_fields [OF assms(2)] assms(1) by (auto simp: ts_inv_def)
  have "list_all2 worker_ok (workers s') (notifications s')"
    using assms(1) j(2,3) by (auto simp: ts_inv_def list_all2_worker_queue list_all2_notify_one)
  moreover have "length (workers s') = length (workers s)"
    using j(3) by (auto simp: notify_one_def)
  ultimately show ?thesis
    using assms(1) j by (simp add: ts_inv_def mset_queues_append)
qed

lemma ts_inv_done_at:
  assumes "ts_inv s" "j < length (notifications s)"
  shows "ts_inv (done_at j s)"
proof -
  have "list_all2 worker_ok (notify_one j (workers s)) ((notifications s)[j := done_nq (notifications s ! j)])"
    using assms by (auto simp: ts_inv_def notify_one_def done_nq_def worker_ok_def
        list_all2_conv_all_nth nth_list_update)
  then show ?thesis
    using assms by (simp add: ts_inv_def done_at_def update_queue_def done_nq_def map_queue_finished_update
        notify_one_def)
qed

lemma ts_inv_pop_own:
  assumes "ts_inv s" "i < length (workers s)"
  shows "ts_inv (pop_own i s)"
proof -
  let ?q = "notifications s ! i"
  have i: "i < length (notifications s)" using assms by (simp add: ts_inv_def)
  have ok: "list_all2 worker_ok (workers s) (notifications s)" using assms(1) by (simp add: ts_inv_def)
  show ?thesis
  proof (cases "queue ?q")
    case Nil
    then show ?thesis using assms ok i
      by (auto simp: pop_own_def pop_def ts_inv_def intro!: list_all2_worker_set)
  next
    case (Cons x rest)
    have "list_all2 worker_ok ((workers s)[i := Idle]) ((notifications s)[i := ?q\<lparr>queue := rest\<rparr>])"
      using ok by (simp add: list_all2_update_cong)
    then show ?thesis
      using assms i Cons mset_queues_take [OF i Cons]
      by (auto simp: pop_own_def pop_def ts_inv_def update_queue_def)
  qed
qed

lemma ts_inv_run_iteration:
  assumes "ts_inv s" "i < length (workers s)"
  shows "ts_inv (run_iteration gl i s)"
proof (cases "sweep gl (of_nat i) 0 (unat (count_ts s)) s")
  case None
  then show ?thesis using ts_inv_pop_own [OF assms] by (simp add: run_iteration_def)
next
  case (Some r)
  obtain func s' where r: "r = (func, s')" by (cases r)
  have c: "count_ts s \<noteq> 0" using Some by (cases "count_ts s = 0") simp_all
  obtain j where j: "j < length (notifications s)"
    "queue (notifications s ! j) = func # tl (queue (notifications s ! j))"
    "s' = update_queue j ((notifications s ! j)\<lparr>queue := tl (queue (notifications s ! j))\<rparr>) s"
    using sweep_Some [OF Some [unfolded r] c] assms(1) by (auto simp: ts_inv_def)
  show ?thesis
    using assms(1) j Some r mset_queues_take [OF j(1,2)]
    by (auto simp: run_iteration_def ts_inv_def update_queue_def list_all2_worker_queue)
qed

lemma ts_inv_worker_step: "worker_step s s' \<Longrightarrow> ts_inv s \<Longrightarrow> ts_inv s'"
  by (induction rule: worker_step.induct) (simp_all add: ts_inv_run_iteration ts_inv_pop_own)

lemma ts_inv_client_step: "client_step s s' \<Longrightarrow> ts_inv s \<Longrightarrow> ts_inv s'"
  by (induction rule: client_step.induct) (simp_all add: ts_inv_async ts_inv_done_at)

lemma worker_step_cases:
  assumes "worker_step s s'" "ts_inv s"
  obtains (take) i j x rest where "i < length (workers s)" "workers s ! i \<in> {Idle, Woken}"
      "j < length (notifications s)" "queue (notifications s ! j) = x # rest"
      "notifications s' = (notifications s)[j := (notifications s ! j)\<lparr>queue := rest\<rparr>]"
      "executed s' = executed s @ [x]" "workers s' = workers s \<or> workers s' = (workers s)[i := Idle]"
      "submitted s' = submitted s" "count_ts s' = count_ts s"
  | (exit) i where "i < length (workers s)" "workers s ! i \<in> {Idle, Woken}"
      "queue (notifications s ! i) = []" "finished (notifications s ! i)"
      "s' = s\<lparr>workers := (workers s)[i := Exited]\<rparr>"
  | (wait) i where "i < length (workers s)" "workers s ! i \<in> {Idle, Woken}"
      "queue (notifications s ! i) = []" "\<not> finished (notifications s ! i)"
      "s' = s\<lparr>workers := (workers s)[i := Waiting]\<rparr>"
  using assms(1)
proof (cases rule: worker_step.cases)
  case (run i gl)
  have i: "i < length (notifications s)" using run(2) assms(2) by (simp add: ts_inv_def)
  show ?thesis
  proof (cases "sweep gl (of_nat i) 0 (unat (count_ts s)) s")
    case None
    then have s': "s' = pop_own i s" using run(1) by (simp add: run_iteration_def)
    from i show ?thesis
    proof (cases rule: pop_own_cases)
      case (take x rest)
      then show ?thesis using that(1) [of i i x rest] run(2,3) i by (simp add: s')
    next
      case exit
      then show ?thesis using that(2) [of i] run(2,3) by (simp add: s')
    next
      case wait
      then show ?thesis using that(3) [of i] run(2,3) by (simp add: s')
    qed
  next
    case (Some r)
    obtain func s1 where r: "r = (func, s1)" by (cases r)
    have c: "count_ts s \<noteq> 0" using Some by (cases "count_ts s = 0") simp_all
    obtain j where j: "j < length (notifications s)"
      "queue (notifications s ! j) = func # tl (queue (notifications s ! j))"
      "s1 = update_queue j ((notifications s ! j)\<lparr>queue := tl (queue (notifications s ! j))\<rparr>) s"
      using sweep_Some [OF Some [unfolded r] c] assms(2) by (auto simp: ts_inv_def)
    have "s' = s1\<lparr>executed := executed s1 @ [func]\<rparr>" using run(1) Some r by (simp add: run_iteration_def)
    then show ?thesis
      using that(1) [of i j func "tl (queue (notifications s ! j))"] run j by (simp add: update_queue_def)
  qed
next
  case (wake i)
  have i: "i < length (notifications s)" using wake(2) assms(2) by (simp add: ts_inv_def)
  from i show ?thesis
  proof (cases rule: pop_own_cases)
    case (take x rest)
    then show ?thesis using that(1) [of i i x rest] wake i by simp
  next
    case exit
    then show ?thesis using that(2) [of i] wake by simp
  next
    case wait
    then show ?thesis using that(3) [of i] wake by simp
  qed
qed

lemma worker_step_runnable:
  "worker_step s s' \<Longrightarrow> \<exists>i<length (workers s). workers s ! i = Idle \<or> workers s ! i = Woken"
  by (induction rule: worker_step.induct) auto

lemma reach_lost_wakeup_state: "reach 1 1 lost_wakeup_state"
proof -
  have w: "worker_step (init_ts 1 1) waiting_pool"
    unfolding waiting_pool_def by (rule worker_step.run) (simp_all add: init_ts_def)
  have a: "async (\<lambda>_. False) 7 waiting_pool = Inr lost_wakeup_state" by code_simp
  show ?thesis using reach.client [OF reach.worker [OF reach.start w] client_step.async [OF a]] .
qed

text \<open>
  Claim C13: in every reachable state of the pool there is one queue and one thread per
  count, every submitted task is either executed or in exactly one queue, a waiting thread
  waits on a queue that is not finished, and an exited thread's queue is finished.
\<close>

theorem ts_inv_reach: "reach c k s \<Longrightarrow> ts_inv s"
  by (induction rule: reach.induct) (simp_all add: ts_inv_init ts_inv_worker_step ts_inv_client_step)

text \<open>
  Claim C14: a thread leaves \<^verbatim>\<open>run\<close> only when its own queue is empty and
  finished.
\<close>

theorem worker_exit_drained:
  assumes "worker_step s s'" "ts_inv s" "i < length (workers s)"
    "workers s ! i \<noteq> Exited" "workers s' ! i = Exited"
  shows "queue (notifications s ! i) = [] \<and> finished (notifications s ! i)"
  using assms(1,2)
proof (cases rule: worker_step_cases)
  case (take i' j x rest)
  then show ?thesis using assms(3-5) by (auto simp: nth_list_update split: if_splits)
next
  case (exit i')
  then show ?thesis using assms(3-5) by (cases "i = i'") simp_all
next
  case (wait i')
  then show ?thesis using assms(3-5) by (cases "i = i'") simp_all
qed

section \<open>Shutting down\<close>

lemma length_queues_take:
  "j < length qs \<Longrightarrow> queue (qs ! j) = x # rest \<Longrightarrow>
   Suc (length (concat (map queue (qs[j := (qs ! j)\<lparr>queue := rest\<rparr>])))) = length (concat (map queue qs))"
  using arg_cong [OF mset_queues_take, of j qs x rest size] by simp

lemma worker_step_finished:
  assumes "worker_step s s'" "ts_inv s"
  shows "map finished (notifications s') = map finished (notifications s)"
  using assms
proof (cases rule: worker_step_cases)
  case (take i j x rest)
  then show ?thesis by (simp add: map_update list_update_same_conv)
qed simp_all

lemma worker_step_all_finished:
  "worker_step s s' \<Longrightarrow> ts_inv s \<Longrightarrow> list_all finished (notifications s) \<Longrightarrow> list_all finished (notifications s')"
proof -
  assume step: "worker_step s s'" and inv: "ts_inv s" and fin: "list_all finished (notifications s)"
  have "list_all id (map finished (notifications s))" using fin by (simp add: list.pred_map)
  then have "list_all id (map finished (notifications s'))" by (simp only: worker_step_finished [OF step inv])
  then show ?thesis by (simp add: list.pred_map)
qed

lemma no_waiting_when_finished:
  "ts_inv s \<Longrightarrow> list_all finished (notifications s) \<Longrightarrow> i < length (workers s) \<Longrightarrow> workers s ! i \<noteq> Waiting"
  by (auto simp: ts_inv_def list_all2_conv_all_nth list_all_length worker_ok_def)

lemma work_left_decreases:
  assumes "worker_step s s'" "ts_inv s" "list_all finished (notifications s)"
  shows "work_left s' < work_left s"
  using assms(1,2)
proof (cases rule: worker_step_cases)
  case (take i j x rest)
  have "length (filter (\<lambda>w. w \<noteq> Exited) (workers s')) = length (filter (\<lambda>w. w \<noteq> Exited) (workers s))"
    using take(7) length_filter_update [OF take(1), of "\<lambda>w. w \<noteq> Exited" Idle] take(2) by auto
  then show ?thesis using take length_queues_take [OF take(3,4)] by (simp add: work_left_def)
next
  case (exit i)
  then show ?thesis
    using length_filter_update [OF exit(1), of "\<lambda>w. w \<noteq> Exited" Exited] by (auto simp: work_left_def)
next
  case (wait i)
  then show ?thesis using assms(2,3) by (simp add: list_all_length ts_inv_def)
qed

lemma drained_exits_worker_step:
  assumes "worker_step s s'" "ts_inv s" "drained_exits s"
  shows "drained_exits s'"
  using assms(1,2)
proof (cases rule: worker_step_cases)
  case (take i j x rest)
  then show ?thesis using assms(3)
    by (auto simp: drained_exits_def list_all2_conv_all_nth nth_list_update split: if_splits)
next
  case (exit i)
  then show ?thesis using assms(3)
    by (auto simp: drained_exits_def list_all2_conv_all_nth nth_list_update)
next
  case (wait i)
  then show ?thesis using assms(3)
    by (auto simp: drained_exits_def list_all2_conv_all_nth nth_list_update)
qed

lemma worker_step_exists:
  assumes "ts_inv s" "list_all finished (notifications s)" "i < length (workers s)" "workers s ! i \<noteq> Exited"
  shows "\<exists>s'. worker_step s s'"
proof (cases "workers s ! i")
  case Idle
  then show ?thesis using assms(3) worker_step.run by blast
next
  case Woken
  then show ?thesis using assms(3) worker_step.wake by blast
qed (use assms no_waiting_when_finished in auto)

text \<open>
  Claim C15: once every queue is finished (the destructor has called
  \<^verbatim>\<open>done\<close>), the threads can take at most \<open>work_left\<close> steps: the joins in
  \<^verbatim>\<open>~task_system\<close> return.
\<close>

theorem join_bound:
  "(worker_step ^^ n) s s' \<Longrightarrow> ts_inv s \<Longrightarrow> list_all finished (notifications s) \<Longrightarrow> n \<le> work_left s"
proof (induction n arbitrary: s)
  case 0
  then show ?case by simp
next
  case (Suc n)
  obtain s1 where s1: "worker_step s s1" "(worker_step ^^ n) s1 s'"
    using relpowp_Suc_D2 [OF Suc.prems(1)] by blast
  have "n \<le> work_left s1"
    using Suc.IH [OF s1(2) ts_inv_worker_step [OF s1(1) Suc.prems(2)]]
      worker_step_all_finished [OF s1(1) Suc.prems(2,3)] by simp
  then show ?case using work_left_decreases [OF s1(1) Suc.prems(2,3)] by simp
qed

lemma worker_step_submitted:
  assumes "worker_step s s'" "ts_inv s"
  shows "submitted s' = submitted s"
  using assms by (cases rule: worker_step_cases) simp_all

lemma workers_drain_run:
  assumes "ts_inv s" "list_all finished (notifications s)" "drained_exits s"
  shows "\<exists>s'. worker_step\<^sup>*\<^sup>* s s' \<and> list_all (\<lambda>w. w = Exited) (workers s') \<and>
    mset (executed s') = mset (submitted s') \<and> submitted s' = submitted s"
  using assms
proof (induction "work_left s" arbitrary: s rule: less_induct)
  case less
  show ?case
  proof (cases "list_all (\<lambda>w. w = Exited) (workers s)")
    case True
    then have "\<forall>q\<in>set (notifications s). queue q = []"
      using less.prems(1,3)
      by (auto simp: drained_exits_def ts_inv_def list_all2_conv_all_nth list_all_length in_set_conv_nth)
    then show ?thesis using True less.prems(1) by (auto simp: ts_inv_def)
  next
    case False
    then obtain i where "i < length (workers s)" "workers s ! i \<noteq> Exited" by (auto simp: list_all_length)
    then obtain s1 where s1: "worker_step s s1" using worker_step_exists [OF less.prems(1,2)] by blast
    obtain s' where "worker_step\<^sup>*\<^sup>* s1 s'" "list_all (\<lambda>w. w = Exited) (workers s')"
      "mset (executed s') = mset (submitted s')" "submitted s' = submitted s1"
      using less.hyps [OF work_left_decreases [OF s1 less.prems(1,2)] ts_inv_worker_step [OF s1 less.prems(1)]
          worker_step_all_finished [OF s1 less.prems(1,2)] drained_exits_worker_step [OF s1 less.prems(1,3)]]
      by blast
    then show ?thesis using s1 worker_step_submitted [OF s1 less.prems(1)]
      by (auto intro: converse_rtranclp_into_rtranclp)
  qed
qed

text \<open>
  A run showing the lost wake-up: \<^verbatim>\<open>push\<close> does not notify the condition variable: when every
  \<^verbatim>\<open>try_push\<close> of \<^verbatim>\<open>async\<close> fails, the task is queued while the only thread
  waits on that queue, and no thread can take a step until \<^verbatim>\<open>done\<close> is called; a
  successful \<^verbatim>\<open>try_push\<close> would have woken it.
\<close>

theorem push_lost_wakeup:
  "reach 1 1 lost_wakeup_state \<and> workers lost_wakeup_state = [Waiting] \<and>
   queue (notifications lost_wakeup_state ! 0) = [7] \<and> \<not> (\<exists>s'. worker_step lost_wakeup_state s') \<and>
   workers (projr (async (\<lambda>_. True) 7 waiting_pool)) = [Woken]"
proof -
  have ws: "workers lost_wakeup_state = [Waiting]" by code_simp
  then have "\<not> (\<exists>s'. worker_step lost_wakeup_state s')" using worker_step_runnable by fastforce
  moreover have "queue (notifications lost_wakeup_state ! 0) = [7]" by code_simp
  moreover have "workers (projr (async (\<lambda>_. True) 7 waiting_pool)) = [Woken]" by code_simp
  ultimately show ?thesis using reach_lost_wakeup_state ws by simp
qed

lemma worker_step_keeps_waiting:
  assumes "worker_step s s'" "ts_inv s" "workers s ! i = Waiting"
  shows "workers s' ! i = Waiting"
  using assms(1,2)
proof (cases rule: worker_step_cases)
  case (take i' j x rest)
  then have "i' \<noteq> i" using assms(3) by auto
  then show ?thesis using take(7) assms(3) by auto
next
  case (exit i')
  then have "i' \<noteq> i" using assms(3) by auto
  then show ?thesis using exit(5) assms(3) by simp
next
  case (wait i')
  then show ?thesis using assms(3) by (cases "i' = i") simp_all
qed

text \<open>
  Claim C18: no thread wakes another. A thread waiting on its queue stays waiting through
  any number of steps of the other threads, even when they take tasks from its queue or
  its queue holds tasks: only the owner's calls (a successful \<^verbatim>\<open>try_push\<close> of
  \<^verbatim>\<open>async\<close>, or \<^verbatim>\<open>done\<close>) wake it. With C23 (\<^verbatim>\<open>push\<close> wakes no one) this is
  the lost wake-up in general.
\<close>

theorem waiting_needs_owner:
  assumes "worker_step\<^sup>*\<^sup>* s s'" "ts_inv s" "workers s ! i = Waiting"
  shows "workers s' ! i = Waiting"
  using assms
proof (induction rule: rtranclp_induct)
  case base
  then show ?case by simp
next
  case (step s1 s2)
  have "ts_inv s1" using step.hyps(1) step.prems(1) ts_inv_worker_step
    by (induction rule: rtranclp_induct) blast+
  then show ?case using worker_step_keeps_waiting [OF step.hyps(2)] step.IH step.prems by blast
qed

section \<open>async\<close>

text \<open>
  Claim C19: \<^verbatim>\<open>async\<close> divides by \<^verbatim>\<open>count\<close>: on a pool with no threads
  (\<^verbatim>\<open>hardware_concurrency()\<close> returned 0) it is a division by zero, and on any other
  pool it succeeds.
\<close>

theorem async_error:
  "(count_ts s = 0 \<longrightarrow> async gl w s = Inl Division_by_zero) \<and>
   (count_ts s \<noteq> 0 \<longrightarrow> (\<exists>s'. async gl w s = Inr s'))"
  by (auto simp: async_def Let_def split: option.split)



text \<open>
  A run at the wrap (see C20): because the index wraps at 2^32, which 3 does not divide, two
  consecutive \<^verbatim>\<open>async\<close> calls around the wrap both go to queue 0 of a three-thread
  pool.
\<close>

theorem async_wrap_repeats_queue:
  "map (\<lambda>q. length (queue q))
     (notifications (projr (async (\<lambda>_. True) (2::nat)
        (projr (async (\<lambda>_. True) 1 ((init_ts 3 48)\<lparr>index := - 1\<rparr>)))))) = [2, 0, 0]"
  by code_simp

text \<open>
  Claim C21: \<^verbatim>\<open>async\<close> adds the task exactly once to the queues and
  runs nothing.
\<close>

theorem async_enqueues_once:
  assumes "ts_inv s" "async gl w s = Inr s'"
  shows "mset (concat (map queue (notifications s'))) = add_mset w (mset (concat (map queue (notifications s)))) \<and>
    executed s' = executed s \<and> submitted s' = submitted s @ [w]"
proof -
  obtain j where "j < length (notifications s)"
    "notifications s' = (notifications s)[j := (notifications s ! j)\<lparr>queue := queue (notifications s ! j) @ [w]\<rparr>]"
    "executed s' = executed s" "submitted s' = submitted s @ [w]"
    using async_fields [OF assms(2)] assms(1) by (auto simp: ts_inv_def)
  then show ?thesis by (simp add: mset_queues_append)
qed

text \<open>
  Claim C22: when the first \<^verbatim>\<open>try_push\<close> gets the lock, the task goes to the
  end of queue \<open>index mod count\<close> and that queue's thread is woken if it waits.
\<close>

theorem async_first_try:
  assumes "async gl w s = Inr s'" "gl 0" "count_ts s * k_bound s \<noteq> 0"
  shows "notifications s' = (notifications s)[unat (index s mod count_ts s) :=
      (notifications s ! unat (index s mod count_ts s))\<lparr>queue :=
         queue (notifications s ! unat (index s mod count_ts s)) @ [w]\<rparr>] \<and>
    workers s' = notify_one (unat (index s mod count_ts s)) (workers s)"
proof -
  obtain m where m: "unat (count_ts s * k_bound s) = Suc m"
    using assms(3) by (cases "unat (count_ts s * k_bound s)") (simp_all add: unat_eq_zero)
  show ?thesis using assms(1,2)
    by (auto simp: async_def m Let_def try_push_def update_queue_def)
qed

text \<open>
  Claim C23: when no \<^verbatim>\<open>try_push\<close> gets the lock, the task goes to the end of
  queue \<open>index mod count\<close> and no thread is woken.
\<close>

theorem async_push_fallback:
  assumes "async gl w s = Inr s'" "\<And>n. \<not> gl n"
  shows "notifications s' = (notifications s)[unat (index s mod count_ts s) :=
      (notifications s ! unat (index s mod count_ts s))\<lparr>queue :=
         queue (notifications s ! unat (index s mod count_ts s)) @ [w]\<rparr>] \<and>
    workers s' = workers s"
  using assms by (auto simp: async_def Let_def try_push_loop_None update_queue_def push_def split: if_splits)

end
