(* ===== verification/Task_Lifecycle.thy ===== *)
theory Task_Lifecycle
  imports Task_Queue
begin

text \<open>
  The life of a \<^verbatim>\<open>task_system\<close> as its owner sees it: the constructor starts
  \<open>count\<close> threads, the owner calls \<^verbatim>\<open>async\<close> any number of times, and the destructor
  calls \<^verbatim>\<open>done\<close> on each queue in order and then joins every thread, while the threads
  run throughout. \<open>lifecycle c k d s\<close> says that \<open>s\<close> is reached this way and that the
  destructor has finished the first \<open>d\<close> queues; \<open>joined\<close> is the condition under
  which the joins of the destructor return.
\<close>

inductive lifecycle :: "32 word \<Rightarrow> 32 word \<Rightarrow> nat \<Rightarrow> 't task_system \<Rightarrow> bool" for c k where
  construct: "lifecycle c k 0 (init_ts c k)"
| worker: "lifecycle c k d s \<Longrightarrow> worker_step s s' \<Longrightarrow> lifecycle c k d s'"
| async: "lifecycle c k 0 s \<Longrightarrow> async got_lock work s = Inr s' \<Longrightarrow> lifecycle c k 0 s'"
| finish: "lifecycle c k d s \<Longrightarrow> d < length (notifications s) \<Longrightarrow> lifecycle c k (Suc d) (done_at d s)"

definition joined :: "'t task_system \<Rightarrow> bool" where
  "joined s \<longleftrightarrow> list_all (\<lambda>w. w = Exited) (workers s)"

definition lifecycle_inv :: "32 word \<Rightarrow> nat \<Rightarrow> 't task_system \<Rightarrow> bool" where
  "lifecycle_inv c d s \<longleftrightarrow> count_ts s = c \<and> ts_inv s \<and> drained_exits s \<and> d \<le> unat c \<and>
     map finished (notifications s) = map (\<lambda>j. j < d) [0..<unat c]"

lemma drained_exits_unfinished:
  "ts_inv s \<Longrightarrow> \<not> list_ex finished (notifications s) \<Longrightarrow> drained_exits s"
  by (auto simp: ts_inv_def drained_exits_def list_all2_conv_all_nth list_ex_length worker_ok_def)

lemma map_finished_async:
  assumes "async gl w s = Inr s'" "length (notifications s) = unat (count_ts s)"
  shows "map finished (notifications s') = map finished (notifications s)"
  using async_fields [OF assms] by (auto simp: map_update list_update_same_conv)

lemma map_finished_done_at:
  assumes "d < length (notifications s)"
    "map finished (notifications s) = map (\<lambda>j. j < d) [0..<length (notifications s)]"
  shows "map finished (notifications (done_at d s)) = map (\<lambda>j. j < Suc d) [0..<length (notifications (done_at d s))]"
proof -
  have "map finished (notifications (done_at d s)) = (map finished (notifications s))[d := True]"
    by (simp add: done_at_def update_queue_def done_nq_def map_update)
  moreover have "(map (\<lambda>j. j < d) [0..<length (notifications s)])[d := True] =
      map (\<lambda>j. j < Suc d) [0..<length (notifications s)]"
    using assms(1) by (intro nth_equalityI) (auto simp: nth_list_update)
  ultimately show ?thesis
    using assms by (simp add: done_at_def update_queue_def)
qed

lemma drained_exits_done_at:
  assumes "drained_exits s" "d < length (notifications s)"
  shows "drained_exits (done_at d s)"
proof -
  have q: "map queue (notifications (done_at d s)) = map queue (notifications s)"
    using assms(2) by (simp add: done_at_def update_queue_def done_nq_def map_update list_update_same_conv)
  have w: "list_all2 (\<lambda>w w'. w' = Exited \<longrightarrow> w = Exited) (workers s) (workers (done_at d s))"
    by (auto simp: done_at_def update_queue_def notify_one_def list_all2_conv_all_nth nth_list_update)
  have "list_all2 (\<lambda>w q. w = Exited \<longrightarrow> q = []) (workers (done_at d s)) (map queue (notifications (done_at d s)))"
    using assms(1) w unfolding q drained_exits_def
    by (auto simp: list_all2_conv_all_nth)
  then show ?thesis by (simp add: drained_exits_def list_all2_map2)
qed

lemma worker_step_count_ts:
  assumes "worker_step s s'" "ts_inv s"
  shows "count_ts s' = count_ts s"
  using assms by (cases rule: worker_step_cases) simp_all

lemma lifecycle_inv_length: "lifecycle_inv c d s \<Longrightarrow> length (notifications s) = unat c"
  by (simp add: lifecycle_inv_def ts_inv_def)

lemma lifecycle_inv_init: "lifecycle_inv c 0 (init_ts c k)"
proof -
  have "drained_exits (init_ts c k)"
    by (simp add: drained_exits_def init_ts_def list_all2_conv_all_nth)
  moreover have "map finished (notifications (init_ts c k)) = map (\<lambda>j. j < 0) [0..<unat c]"
    by (simp add: init_ts_def empty_queue_def map_replicate_const)
  ultimately show ?thesis using ts_inv_init [of c k] by (simp add: lifecycle_inv_def init_ts_def)
qed

lemma lifecycle_inv_worker:
  assumes "lifecycle_inv c d s" "worker_step s s'"
  shows "lifecycle_inv c d s'"
proof -
  have inv: "ts_inv s" using assms(1) by (simp add: lifecycle_inv_def)
  show ?thesis
    using assms(1) ts_inv_worker_step [OF assms(2) inv] drained_exits_worker_step [OF assms(2) inv]
      worker_step_finished [OF assms(2) inv] worker_step_count_ts [OF assms(2) inv]
    by (simp add: lifecycle_inv_def)
qed

lemma lifecycle_inv_async:
  assumes "lifecycle_inv c 0 s" "async gl w s = Inr s'"
  shows "lifecycle_inv c 0 s'"
proof -
  have inv: "ts_inv s" using assms(1) by (simp add: lifecycle_inv_def)
  have inv': "ts_inv s'" by (rule ts_inv_async [OF inv assms(2)])
  have len: "length (notifications s) = unat (count_ts s)" using inv by (simp add: ts_inv_def)
  have cnt: "count_ts s' = count_ts s" using async_fields [OF assms(2) len] by auto
  have fin: "map finished (notifications s') = map finished (notifications s)"
    by (rule map_finished_async [OF assms(2) len])
  with assms(1) have "map finished (notifications s') = replicate (unat c) False"
    by (simp add: lifecycle_inv_def map_replicate_const)
  then have "list_all (\<lambda>b. \<not> b) (map finished (notifications s'))"
    by (simp add: list_all_iff)
  then have "\<not> list_ex finished (notifications s')"
    by (simp add: list.pred_map list_ex_iff list_all_iff)
  then show ?thesis
    using inv' fin cnt assms(1) drained_exits_unfinished [OF inv'] by (simp add: lifecycle_inv_def)
qed

lemma lifecycle_inv_done:
  assumes "lifecycle_inv c d s" "d < length (notifications s)"
  shows "lifecycle_inv c (Suc d) (done_at d s)"
proof -
  have i: "ts_inv s" "drained_exits s" "count_ts s = c"
    "map finished (notifications s) = map (\<lambda>j. j < d) [0..<length (notifications s)]"
    using assms(1) lifecycle_inv_length [OF assms(1)] by (simp_all add: lifecycle_inv_def)
  have "length (notifications (done_at d s)) = length (notifications s)"
    by (simp add: done_at_def update_queue_def)
  then show ?thesis
    using assms(2) i ts_inv_done_at [OF i(1) assms(2)] drained_exits_done_at [OF i(2) assms(2)]
      map_finished_done_at [OF assms(2) i(4)] lifecycle_inv_length [OF assms(1)]
    by (simp add: lifecycle_inv_def done_at_def update_queue_def)
qed

lemma lifecycle_inv_holds: "lifecycle c k d s \<Longrightarrow> lifecycle_inv c d s"
  by (induction rule: lifecycle.induct)
    (blast intro: lifecycle_inv_init lifecycle_inv_worker lifecycle_inv_async lifecycle_inv_done)+

lemma async_Inr: "count_ts s \<noteq> 0 \<Longrightarrow> async gl w s = Inr (projr (async gl w s))"
  by (simp add: async_def Let_def split: option.splits)

lemma lifecycle_asyncs:
  assumes "lifecycle c k 0 s" "c \<noteq> 0"
  shows "lifecycle c k 0 (foldl (\<lambda>s w. projr (async gl w s)) s ws)"
  using assms(1)
proof (induction ws arbitrary: s)
  case Nil
  then show ?case by simp
next
  case (Cons w ws)
  have "count_ts s = c" using lifecycle_inv_holds [OF Cons.prems] by (simp add: lifecycle_inv_def)
  then have "lifecycle c k 0 (projr (async gl w s))"
    using lifecycle.async [OF Cons.prems async_Inr] assms(2) by blast
  then show ?case using Cons.IH by simp
qed

lemma lifecycle_drain_run:
  assumes "lifecycle c k (unat c) s"
  shows "\<exists>s'. worker_step\<^sup>*\<^sup>* s s' \<and> joined s' \<and> mset (executed s') = mset (submitted s') \<and>
    submitted s' = submitted s"
proof -
  have i: "lifecycle_inv c (unat c) s" by (rule lifecycle_inv_holds [OF assms])
  have "list_all id (map (\<lambda>j. j < unat c) [0..<unat c])" by (simp add: list_all_iff)
  then have "list_all id (map finished (notifications s))" using i by (simp add: lifecycle_inv_def)
  then have "list_all finished (notifications s)" by (simp add: list.pred_map)
  then show ?thesis
    using workers_drain_run [of s] i by (simp add: lifecycle_inv_def joined_def)
qed

text \<open>
  Claim C17: while the destructor runs, exactly the queues it has reached are finished,
  and no thread has returned from \<^verbatim>\<open>run\<close> leaving tasks in its queue; the pool's
  invariant holds throughout, tasks submitted before the destructor included.
\<close>

theorem destructor_progress:
  "lifecycle c k d s \<Longrightarrow>
   ts_inv s \<and> drained_exits s \<and> d \<le> unat c \<and> map finished (notifications s) = map (\<lambda>j. j < d) [0..<unat c]"
  by (drule lifecycle_inv_holds) (simp add: lifecycle_inv_def)

text \<open>
  Claim C16: the destructor returns. After the owner's \<^verbatim>\<open>async\<close> calls and the
  destructor's \<^verbatim>\<open>done\<close> on every queue, the threads can run until every
  \<^verbatim>\<open>join\<close> returns, and by then every submitted task has run as often as it was
  submitted.
\<close>

theorem destructor_joins:
  "lifecycle c k (unat c) s \<Longrightarrow>
   \<exists>s'. worker_step\<^sup>*\<^sup>* s s' \<and> joined s' \<and> mset (executed s') = mset (submitted s')"
  using lifecycle_drain_run by blast

end
