(* ===== verification/Task_Test.thy ===== *)
theory Task_Test
  imports Task_Lifecycle
begin

text \<open>
  \<^verbatim>\<open>task_test\<close> of \<^verbatim>\<open>src/inc/task_algorithms.hpp\<close>: it prints the numbers of 1000
  tasks in one loop, then hands the same numbering to a pool as 5 tasks of 200 each.
  What a task prints is the list of numbers its \<^verbatim>\<open>printf\<close> calls write; the
  \<^verbatim>\<open>sleep_for\<close> calls and the timers only take time.
\<close>

definition task_test_total :: int where "task_test_total = 1000"
definition task_test_n_async :: int where "task_test_n_async = 5"
definition chunk_size :: "int \<Rightarrow> int \<Rightarrow> int" where "chunk_size tot n_async = tot div n_async"

text \<open>The lambda passed to \<^verbatim>\<open>async\<close>, with what it captures by copy.\<close>

record chunk_task =
  task_no :: int
  start :: int
  chunk :: int

definition chunk_output :: "chunk_task \<Rightarrow> int list" where
  "chunk_output t = map (\<lambda>j. int j + start t) [0..<nat (chunk t)]"

definition single_threaded_output :: "int \<Rightarrow> int list" where
  "single_threaded_output tot = map int [0..<nat tot]"

definition chunk_tasks :: "int \<Rightarrow> int \<Rightarrow> chunk_task list" where
  "chunk_tasks tot n_async =
     map (\<lambda>i. \<lparr>task_no = int i, start = int i * chunk_size tot n_async, chunk = chunk_size tot n_async\<rparr>)
       [0..<nat n_async]"

definition task_test_tasks :: "chunk_task list" where
  "task_test_tasks = chunk_tasks task_test_total task_test_n_async"

lemma chunks_cover:
  "concat (map (\<lambda>i. map (\<lambda>j. int j + int i * int c) [0..<c]) [0..<n]) = map int [0..<n * c]"
proof (induction n)
  case 0
  then show ?case by simp
next
  case (Suc n)
  have "map (\<lambda>j. int j + int n * int c) [0..<c] = map int (map (\<lambda>j. j + n * c) [0..<c])"
    by simp
  also have "map (\<lambda>j. j + n * c) [0..<c] = [n * c..<c + n * c]" by (rule map_add_upt)
  finally have last: "map (\<lambda>j. int j + int n * int c) [0..<c] = map int [n * c..<n * c + c]"
    by (simp only: add.commute)
  have "[0..<n * c + c] = [0..<n * c] @ [n * c..<n * c + c]" by (rule upt_add_eq_append) simp
  then show ?case using Suc last by (simp add: add.commute)
qed

lemma chunk_tasks_output:
  "0 \<le> tot \<Longrightarrow> 0 < n_async \<Longrightarrow>
   concat (map chunk_output (chunk_tasks tot n_async)) =
   map int [0..<nat n_async * nat (tot div n_async)]"
proof -
  assume "0 \<le> tot" "0 < n_async"
  then have c: "chunk_size tot n_async = int (nat (tot div n_async))"
    by (simp add: chunk_size_def pos_imp_zdiv_nonneg_iff)
  have "map chunk_output (chunk_tasks tot n_async) =
        map (\<lambda>i. map (\<lambda>j. int j + int i * int (nat (tot div n_async))) [0..<nat (tot div n_async)]) [0..<nat n_async]"
    by (simp add: chunk_tasks_def chunk_output_def c del: of_nat_nat)
  then show ?thesis by (simp only: chunks_cover)
qed

lemma mset_concat_map_perm: "mset xs = mset ys \<Longrightarrow> mset (concat (map f xs)) = mset (concat (map f ys))"
proof (induction xs arbitrary: ys)
  case Nil
  then show ?case by simp
next
  case (Cons x xs)
  then have "x \<in> set ys" by (metis mset_eq_setD list.set_intros(1))
  then obtain as bs where ys: "ys = as @ x # bs" using split_list by metis
  then have "mset xs = mset (as @ bs)" using Cons.prems by simp
  then show ?case using Cons.IH [of "as @ bs"] ys by (simp add: add_ac)
qed

text \<open>
  Claim C25: \<^verbatim>\<open>task_test\<close> and the pool together. Whatever the interleaving, once
  the owner has submitted exactly the five chunk lambdas of \<^verbatim>\<open>task_test\<close> and the
  destructor has called \<^verbatim>\<open>done\<close> on every queue, the threads can run until every
  \<^verbatim>\<open>join\<close> returns, and the numbers the tasks print are those of the single-threaded
  loop, each once.
\<close>

theorem task_test_outputs_all:
  assumes "lifecycle c k (unat c) s" "submitted s = task_test_tasks"
  shows "\<exists>s'. worker_step\<^sup>*\<^sup>* s s' \<and> joined s' \<and>
    mset (concat (map chunk_output (executed s'))) = mset (single_threaded_output task_test_total)"
proof -
  obtain s' where s': "worker_step\<^sup>*\<^sup>* s s'" "joined s'"
    "mset (executed s') = mset (submitted s')" "submitted s' = submitted s"
    using lifecycle_drain_run [OF assms(1)] by blast
  have n: "nat task_test_n_async * nat (task_test_total div task_test_n_async) = nat task_test_total"
    by (simp add: task_test_total_def task_test_n_async_def)
  have "concat (map chunk_output task_test_tasks) =
        map int [0..<nat task_test_n_async * nat (task_test_total div task_test_n_async)]"
    unfolding task_test_tasks_def
    by (rule chunk_tasks_output) (simp_all add: task_test_total_def task_test_n_async_def)
  also have "\<dots> = single_threaded_output task_test_total"
    unfolding single_threaded_output_def by (simp only: n)
  finally have out: "concat (map chunk_output task_test_tasks) = single_threaded_output task_test_total" .
  have "mset (concat (map chunk_output (executed s'))) = mset (concat (map chunk_output task_test_tasks))"
    using mset_concat_map_perm [OF s'(3), of chunk_output] s'(4) assms(2) by simp
  then show ?thesis using s'(1,2) out by metis
qed

end
