(* ===== verification/Main_Demo.thy ===== *)
theory Main_Demo
  imports Associated_Collection
begin

text \<open>
  \<^verbatim>\<open>main\<close> of \<^verbatim>\<open>src/src/main.cpp\<close>: two mirrored instances, dogs (keys
  \<^verbatim>\<open>tuple<int, float>\<close>) linked to cats (keys \<^verbatim>\<open>tuple<char, int>\<close>). The float
  component of a dog key only takes the values 0 and 1, which compare as the integers
  0 and 1, so dog keys are pairs of integers here. Printing is not modelled: the values
  \<^verbatim>\<open>main\<close> prints are the fields of \<open>main_output\<close>. The structs \<^verbatim>\<open>dog\<close> and
  \<^verbatim>\<open>cat\<close> are datatypes ordered by their keys; \<open>dog_store_is_key_store\<close> shows that a flat set of them is
  the flat set of their keys, so the collections below are over keys.
\<close>

type_synonym dog_key = "int \<times> int"
type_synonym cat_key = "char \<times> int"
type_synonym dogs = "(dog_key, cat_key) ac"
type_synonym cats = "(cat_key, dog_key) ac"

text \<open>
  Lines 17 to 33: the element types. \<^verbatim>\<open>dog\<close> and \<^verbatim>\<open>cat\<close> hold only their key and
  compare by it: \<^verbatim>\<open>operator<\<close> and \<^verbatim>\<open>operator==\<close> on two elements are
  \<open>dog_less\<close> and \<open>dog_eq\<close> (\<open>dog_less\<close> is \<open>less\<close> of the \<open>linorder\<close> instance
  below, and \<open>dog_eq\<close> is equality of the datatype, whose constructor is injective),
  and the overloads that take a bare key are \<open>dog_eq_key\<close> and \<open>dog_less_key\<close>;
  likewise for cats.
\<close>

datatype dog = Dog (key_dog: dog_key)
datatype cat = Cat (key_cat: cat_key)

definition dog_less :: "dog \<Rightarrow> dog \<Rightarrow> bool" where
  "dog_less a b \<longleftrightarrow> key_dog a < key_dog b"

definition dog_eq :: "dog \<Rightarrow> dog \<Rightarrow> bool" where
  "dog_eq a b \<longleftrightarrow> key_dog a = key_dog b"

instantiation dog :: linorder
begin

definition less_dog :: "dog \<Rightarrow> dog \<Rightarrow> bool" where
  "less_dog a b \<longleftrightarrow> dog_less a b"

definition less_eq_dog :: "dog \<Rightarrow> dog \<Rightarrow> bool" where
  "less_eq_dog a b \<longleftrightarrow> a < b \<or> key_dog a = key_dog b"

instance
proof
  fix x y z :: dog
  show "x < y \<longleftrightarrow> x \<le> y \<and> \<not> y \<le> x"
    by (auto simp: less_dog_def less_eq_dog_def dog_less_def)
  show "x \<le> x" by (simp add: less_eq_dog_def)
  show "x \<le> y \<Longrightarrow> y \<le> z \<Longrightarrow> x \<le> z"
    by (auto simp: less_dog_def less_eq_dog_def dog_less_def)
  show "x \<le> y \<Longrightarrow> y \<le> x \<Longrightarrow> x = y"
    by (cases x, cases y) (auto simp: less_dog_def less_eq_dog_def dog_less_def)
  show "x \<le> y \<or> y \<le> x"
    by (auto simp: less_dog_def less_eq_dog_def dog_less_def)
qed

end

definition dog_eq_key :: "dog \<Rightarrow> dog_key \<Rightarrow> bool" where
  "dog_eq_key d k \<longleftrightarrow> key_dog d = k"

definition dog_less_key :: "dog \<Rightarrow> dog_key \<Rightarrow> bool" where
  "dog_less_key d k \<longleftrightarrow> key_dog d < k"

definition cat_less :: "cat \<Rightarrow> cat \<Rightarrow> bool" where
  "cat_less a b \<longleftrightarrow> key_cat a < key_cat b"

definition cat_eq :: "cat \<Rightarrow> cat \<Rightarrow> bool" where
  "cat_eq a b \<longleftrightarrow> key_cat a = key_cat b"

instantiation cat :: linorder
begin

definition less_cat :: "cat \<Rightarrow> cat \<Rightarrow> bool" where
  "less_cat a b \<longleftrightarrow> cat_less a b"

definition less_eq_cat :: "cat \<Rightarrow> cat \<Rightarrow> bool" where
  "less_eq_cat a b \<longleftrightarrow> a < b \<or> key_cat a = key_cat b"

instance
proof
  fix x y z :: cat
  show "x < y \<longleftrightarrow> x \<le> y \<and> \<not> y \<le> x"
    by (auto simp: less_cat_def less_eq_cat_def cat_less_def)
  show "x \<le> x" by (simp add: less_eq_cat_def)
  show "x \<le> y \<Longrightarrow> y \<le> z \<Longrightarrow> x \<le> z"
    by (auto simp: less_cat_def less_eq_cat_def cat_less_def)
  show "x \<le> y \<Longrightarrow> y \<le> x \<Longrightarrow> x = y"
    by (cases x, cases y) (auto simp: less_cat_def less_eq_cat_def cat_less_def)
  show "x \<le> y \<or> y \<le> x"
    by (auto simp: less_cat_def less_eq_cat_def cat_less_def)
qed

end

definition cat_eq_key :: "cat \<Rightarrow> cat_key \<Rightarrow> bool" where
  "cat_eq_key c k \<longleftrightarrow> key_cat c = k"

definition cat_less_key :: "cat \<Rightarrow> cat_key \<Rightarrow> bool" where
  "cat_less_key c k \<longleftrightarrow> key_cat c < k"

definition dk :: dog_key where "dk = (1, 0)"
definition dk2 :: dog_key where "dk2 = (2, 0)"
definition dk3 :: dog_key where "dk3 = (3, 0)"
definition dk4 :: dog_key where "dk4 = (1, 1)"
definition ck :: cat_key where "ck = (CHR ''p'', 0)"
definition ck2 :: cat_key where "ck2 = (CHR ''a'', 1)"
definition ck3 :: cat_key where "ck3 = (CHR ''p'', 2)"

text \<open>Lines 47 to 65: the elements, then five calls of \<^verbatim>\<open>emplace_associations\<close>.\<close>

fun link :: "dog_key \<Rightarrow> cat_key \<Rightarrow> dogs \<times> cats \<Rightarrow> dogs \<times> cats" where
  "link a b (dogs, cats) = emplace_associations a b dogs cats"

definition main_setup :: "dogs \<times> cats" where
  "main_setup =
     link dk4 ck3 (link dk4 ck (link dk3 ck3 (link dk2 ck2 (link dk ck
       (emplace dk4 (emplace dk3 (emplace dk2 (emplace dk empty_collection))),
        emplace ck3 (emplace ck2 (emplace ck empty_collection)))))))"

text \<open>Lines 70 to 76: for each dog linked to \<open>ck3\<close>, the cats linked to that dog.\<close>

definition main_visits :: "dogs \<Rightarrow> cats \<Rightarrow> (dog_key \<times> cat_key list) list" where
  "main_visits dogs cats = map (\<lambda>d. (d, visit d cats)) (visit ck3 dogs)"

record main_output =
  visited :: "(dog_key \<times> cat_key list) list"
  erased_in_cats :: "(dog_key \<times> cat_key) list"
  erased_in_dogs :: "(cat_key \<times> dog_key) list"
  erased_in_cats_again :: "(dog_key \<times> cat_key) list"
  final_dogs :: dogs
  final_cats :: cats

text \<open>
  Lines 81 to 92. \<^verbatim>\<open>k\<close> and \<^verbatim>\<open>ks\<close> are references to the
  \<^verbatim>\<open>foreign_keys_\<close> members of cats and dogs: \<^verbatim>\<open>k.clear()\<close> clears the cats' set,
  \<^verbatim>\<open>k = cats.erase(ks)\<close> assigns that set to itself, \<^verbatim>\<open>ks.clear()\<close> clears the
  dogs' set. \<^verbatim>\<open>calgo::sort\<close> runs libstdc++'s insertion sort on these few elements.
\<close>

definition main_run :: main_output where
  "main_run =
     (case main_setup of (dogs, cats) \<Rightarrow>
      let v = main_visits dogs cats;
          cats = erase_key ck cats;
          k = foreign_keys cats;
          dogs = erase_associations std_insertion_sort k dogs;
          ks = foreign_keys dogs;
          cats = cats\<lparr>foreign_keys := []\<rparr>;
          cats = erase_associations std_insertion_sort ks cats;
          k2 = foreign_keys cats;
          dogs = dogs\<lparr>foreign_keys := []\<rparr>
      in \<lparr>visited = v, erased_in_cats = k, erased_in_dogs = ks, erased_in_cats_again = k2,
          final_dogs = dogs, final_cats = cats\<rparr>)"

definition mirrored :: "('k1, 'k2) ac \<Rightarrow> ('k2, 'k1) ac \<Rightarrow> bool" where
  "mirrored d c \<longleftrightarrow> set (associations c) = reverse ` set (associations d)"

lemma set_emplace_association:
  "sorted (associations st) \<Longrightarrow> set (associations (emplace_association k f st)) = insert (k, f) (set (associations st))"
  by (simp add: emplace_association_insort set_insort_key)

text \<open>
  Claim C24: \<^verbatim>\<open>emplace_associations\<close> keeps two instances whose association tables
  are sorted mirror images of each other: it adds the pair to one side and the reversed
  pair to the other.
\<close>

theorem emplace_associations_mirrored:
  assumes "mirrored d c" "sorted (associations d)" "sorted (associations c)"
  shows "mirrored (fst (emplace_associations k1 k2 d c)) (snd (emplace_associations k1 k2 d c))"
  using assms by (simp add: mirrored_def emplace_associations_def set_emplace_association reverse_def)

text \<open>
  A concrete run: \<^verbatim>\<open>main\<close> visits dogs (1, 1) and (3, 0) from cat (p, 2), with
  cats [(p, 0), (p, 2)] and [(p, 2)]; erasing cat (p, 0) reports its two links; erasing
  them in dogs drops dog (1, 0), whose only link it was, and collapses dog (1, 1) into
  dog (3, 0), which now has the same links, reporting (p, 2)--(1, 1); erasing that in
  cats reports nothing. The two instances end mirrored.
\<close>

theorem main_run_output:
  "visited main_run = [(dk4, [ck, ck3]), (dk3, [ck3])] \<and>
   erased_in_cats main_run = [(dk, ck), (dk4, ck)] \<and>
   erased_in_dogs main_run = [(ck3, dk4)] \<and>
   erased_in_cats_again main_run = [] \<and>
   collection (final_dogs main_run) = [dk2, dk3] \<and>
   associations (final_dogs main_run) = [(dk2, ck2), (dk3, ck3)] \<and>
   collection (final_cats main_run) = [ck2, ck3] \<and>
   associations (final_cats main_run) = [(ck2, dk2), (ck3, dk3)] \<and>
   mirrored (final_dogs main_run) (final_cats main_run)"
  by code_simp


text \<open>
  Why elements are modelled by their keys: a collection of dogs is the collection of their keys: emplacing a dog into a
  sorted flat set of dogs and then reading the keys gives the flat set of keys with the
  dog's key emplaced. This is why the component is modelled over keys.
\<close>

theorem dog_store_is_key_store:
  "sorted ds \<Longrightarrow> map key_dog (flat_set_insert d ds) = flat_set_insert (key_dog d) (map key_dog ds)"
  by (rule flat_set_insert_map_mono) (simp_all add: less_dog_def dog_less_def)


lemma dog_eq_iff: "dog_eq a b \<longleftrightarrow> a = b"
  by (cases a, cases b) (simp add: dog_eq_def)

lemma cat_eq_iff: "cat_eq a b \<longleftrightarrow> a = b"
  by (cases a, cases b) (simp add: cat_eq_def)

end
