(* ===== verification/Traits.thy ===== *)
theory Traits
  imports Main
begin

text \<open>
  The compile-time traits of the repository: \<^verbatim>\<open>is_associatable\<close>
  (\<^verbatim>\<open>associated_collection.hpp\<close>), \<^verbatim>\<open>calgo::is_iterable\<close> and
  \<^verbatim>\<open>calgo::is_container\<close> (\<^verbatim>\<open>container_algo.hpp\<close>), and \<^verbatim>\<open>has_field\<close> with the
  function template it guards (\<^verbatim>\<open>has_field_example.hpp\<close>). Each is the detection idiom:
  a primary template that is false and a partial specialisation on
  \<^verbatim>\<open>void_t<...>\<close> that is true, selected exactly when every expression or type
  named in the \<^verbatim>\<open>void_t\<close> is well formed. A class type is modelled by its list of
  members, so a trait is a test of which members exist. \<^verbatim>\<open>decltype(T::m)\<close> needs a data
  member \<open>m\<close>; \<^verbatim>\<open>decltype(&T::m)\<close> a data member or a member function;
  \<^verbatim>\<open>typename T::m\<close> a member type; \<^verbatim>\<open>declval<T>().m()\<close> a member function.
\<close>

datatype member = Data_member string | Member_function string | Member_type string

type_synonym class_type = "member list"

definition has_data_member :: "class_type \<Rightarrow> string \<Rightarrow> bool" where
  "has_data_member T m \<longleftrightarrow> Data_member m \<in> set T"

definition has_member_function :: "class_type \<Rightarrow> string \<Rightarrow> bool" where
  "has_member_function T m \<longleftrightarrow> Member_function m \<in> set T"

definition has_member_type :: "class_type \<Rightarrow> string \<Rightarrow> bool" where
  "has_member_type T m \<longleftrightarrow> Member_type m \<in> set T"

definition is_associatable :: "class_type \<Rightarrow> bool" where
  "is_associatable T \<longleftrightarrow> has_data_member T ''key''"

definition is_iterable :: "class_type \<Rightarrow> bool" where
  "is_iterable T \<longleftrightarrow> has_member_function T ''begin'' \<and> has_member_function T ''end''"

definition is_container :: "class_type \<Rightarrow> bool" where
  "is_container T \<longleftrightarrow>
     list_all (has_member_type T) [''value_type'', ''size_type'', ''iterator'', ''const_iterator''] \<and>
     list_all (has_member_function T) [''size'', ''begin'', ''end'', ''cbegin'', ''cend'']"

definition has_field :: "class_type \<Rightarrow> bool" where
  "has_field T \<longleftrightarrow> has_data_member T ''field'' \<and>
     (has_data_member T ''member_fun'' \<or> has_member_function T ''member_fun'')"

text \<open>
  \<^verbatim>\<open>requires_field<T>\<close> is \<^verbatim>\<open>enable_if_t<has_field_v<T>, T>\<close>: the type itself when the
  trait holds, a substitution failure otherwise. \<^verbatim>\<open>fun\<close> takes part in overload
  resolution only in the first case, and then returns \<^verbatim>\<open>value.field * value.field\<close>.
\<close>

definition requires_field :: "class_type \<Rightarrow> class_type option" where
  "requires_field T = (if has_field T then Some T else None)"

definition fun_field :: "class_type \<Rightarrow> 'a::times \<Rightarrow> 'a option" where
  "fun_field T field = map_option (\<lambda>_. field * field) (requires_field T)"

definition test_struct :: class_type where
  "test_struct = [Data_member ''field'', Member_function ''member_fun'']"

definition dog_struct :: class_type where
  "dog_struct = [Data_member ''key'', Member_function ''operator=='', Member_function ''operator<'']"

definition cat_struct :: class_type where
  "cat_struct = [Data_member ''key'', Member_function ''operator=='', Member_function ''operator<'']"

text \<open>
  The members of boost's \<^verbatim>\<open>flat_set\<close> and \<^verbatim>\<open>flat_multimap\<close> that the traits look at
  (library types, from their documentation).
\<close>

definition flat_container_struct :: class_type where
  "flat_container_struct =
     map Member_type [''value_type'', ''size_type'', ''iterator'', ''const_iterator'', ''key_type''] @
     map Member_function [''size'', ''begin'', ''end'', ''cbegin'', ''cend'', ''insert'', ''erase'']"

lemma is_container_is_iterable: "is_container T \<Longrightarrow> is_iterable T"
  by (simp add: is_container_def is_iterable_def)

lemma fun_field_some: "has_field T \<Longrightarrow> fun_field T x = Some (x * x)"
  by (simp add: fun_field_def requires_field_def)

lemma fun_field_none: "\<not> has_field T \<Longrightarrow> fun_field T x = None"
  by (simp add: fun_field_def requires_field_def)

lemma element_types_associatable: "is_associatable dog_struct" "is_associatable cat_struct"
  by (simp_all add: is_associatable_def has_data_member_def dog_struct_def cat_struct_def)

lemma flat_containers_are_containers: "is_container flat_container_struct"
  by (simp add: is_container_def has_member_type_def has_member_function_def flat_container_struct_def)

lemma has_field_example: "has_field test_struct" "\<not> has_field dog_struct"
  by (simp_all add: has_field_def has_data_member_def has_member_function_def test_struct_def dog_struct_def)

end
