(* ===== verification/Timer.thy ===== *)
theory Timer
  imports Main
begin

text \<open>
  \<^verbatim>\<open>struct timer\<close> of \<^verbatim>\<open>src/inc/timer.hpp\<close>, an RAII stopwatch: the constructor stores
  its name and a reading of \<^verbatim>\<open>std::chrono::system_clock\<close>, the destructor prints the
  difference to a second reading in nanoseconds. A clock reading is an argument (the time
  point as nanoseconds since the clock's epoch), so the theorems hold for every behaviour
  of the clock; what the destructor prints is the pair of the duration and the name.
\<close>

record timer =
  name :: string
  start :: int

definition timer_ctor :: "string \<Rightarrow> int \<Rightarrow> timer" where
  "timer_ctor n now = \<lparr>name = n, start = now\<rparr>"

definition timer_dtor :: "timer \<Rightarrow> int \<Rightarrow> int \<times> string" where
  "timer_dtor t now = (now - start t, name t)"

definition timed_scope :: "string \<Rightarrow> int \<Rightarrow> int \<Rightarrow> int \<times> string" where
  "timed_scope n before after = timer_dtor (timer_ctor n before) after"

lemma timed_scope_elapsed: "timed_scope n before after = (after - before, n)"
  by (simp add: timed_scope_def timer_dtor_def timer_ctor_def)

lemma timed_scope_negative: "after < before \<Longrightarrow> fst (timed_scope n before after) < 0"
  by (simp add: timed_scope_elapsed)

end
