(* ===== verification/Spec2Isabelle.thy ===== *)
theory Spec2Isabelle
  imports Erase_Associations Task_Test Main_Demo Traits Timer
begin

text \<open>
  \<^bold>\<open>A verification model of simple_cpp: its association index, the generic algorithms
  it is built on, the demo that drives it, and the work-stealing thread pool.\<close>

  \<^bold>\<open>The program.\<close> The class template \<^verbatim>\<open>associated_collection\<close>
  (\<^verbatim>\<open>src/inc/associated_collection.hpp\<close>) holds a flat set of elements ordered by key
  (\<^verbatim>\<open>collection_\<close>), a flat multimap from a key to the keys of a foreign collection
  (\<^verbatim>\<open>associations_\<close>), a multimap of contributors and a set of keys that no
  operation fills, and a flat set of (foreign key, key) pairs that the erasing
  operations report (\<^verbatim>\<open>foreign_keys_\<close>). It is built on the generic algorithms of
  \<^verbatim>\<open>src/inc/container_algo.hpp\<close> (namespace \<^verbatim>\<open>calgo\<close>) and on boost's
  \<^verbatim>\<open>flat_set\<close>/\<^verbatim>\<open>flat_multimap\<close>. Two instances, one per side of a relation, are
  kept mirrored by their caller: \<^verbatim>\<open>emplace_associations\<close> links both sides, and the
  pairs one side reports when it erases are passed to the other side's
  \<^verbatim>\<open>erase\<close>, as \<^verbatim>\<open>main\<close> (\<^verbatim>\<open>src/src/main.cpp\<close>) does with dogs and cats.
  Independently, \<^verbatim>\<open>src/inc/task_queue.hpp\<close> is a thread pool: one
  \<^verbatim>\<open>notification_queue\<close> (a deque, a mutex, a condition variable) per thread, and
  \<^verbatim>\<open>task_system::async\<close>, which hands a task round-robin to the queues.

  \<^bold>\<open>The theories.\<close>
  \<^item> \<open>Prelude\<close>: the association types, the collections \<open>flat_simps\<close> and
    \<open>ac_inv\<close>, counting by key (\<open>count_key\<close>, the semantics of
    \<^verbatim>\<open>flat_multimap::count\<close>), lemmas on lists sorted by a key and on updating one
    element of a list of lists.
  \<^item> \<open>Flat_Containers\<close>: boost's flat containers as sorted lists searched by the binary
    search \<open>partition_point\<close> (\<^verbatim>\<open>lower_bound\<close>/\<^verbatim>\<open>upper_bound\<close>). Library code,
    not in the repository: modelled from its documented behaviour, and proved on sorted
    input equal to the filters that state that behaviour.
  \<^item> \<open>Calgo\<close>: the run-time algorithms of \<^verbatim>\<open>container_algo.hpp\<close>.
    \<^verbatim>\<open>erase_if\<close> (\<^verbatim>\<open>std::remove_if\<close> then erase) and \<^verbatim>\<open>erase_duplicates_if\<close>
    (\<^verbatim>\<open>std::unique\<close> then erase) are the in-place loops with read and write positions
    and a predicate that has a state and sees the buffer, because
    \<^verbatim>\<open>associated_collection\<close> passes them lambdas with side effects.
    \<open>std_insertion_sort\<close> is the insertion sort libstdc++'s \<^verbatim>\<open>std::sort\<close> runs on
    at most 16 elements. \<^verbatim>\<open>erase_at\<close> at the end of a container is undefined
    behaviour, the value \<open>None\<close>.
  \<^item> \<open>Calgo_Output\<close>: the rest of \<^verbatim>\<open>container_algo.hpp\<close>: \<^verbatim>\<open>iterable\<close>, the
    inserters (an insert iterator is a container and a position, the container's
    insert-at-position a parameter: \<open>vector_insert\<close> or boost's \<open>flat_set_insert_hint\<close>),
    and \<^verbatim>\<open>transform\<close> and \<^verbatim>\<open>unique_copy\<close> as the values they write through them.
    \<open>inverse_assocations\<close> is defined with them, as the code writes it.
  \<^item> \<open>Associated_Collection\<close>: the record \<open>associated_collection\<close> (the five members)
    and one definition per member function: \<open>emplace\<close>, \<open>emplace_association\<close>,
    \<open>erase_key\<close> (\<^verbatim>\<open>erase(key_type)\<close> through the private \<^verbatim>\<open>erase_if\<close>, here
    \<open>erase_if_ac\<close>), \<open>erase_associations\<close> (\<^verbatim>\<open>erase(inverse_foreign_type)\<close>), its
    three lambdas \<open>erase_links_pred\<close>, \<open>association_order\<close>, \<open>collapse_pred\<close>,
    \<open>compare_associations\<close>, \<open>inverse_assocations\<close>, \<open>visit\<close>, \<open>reserve\<close>,
    \<open>size_ac\<close>, and the free function \<open>emplace_associations\<close>. Elements are modelled
    by their keys (all comparisons in the code are by key).
  \<^item> \<open>Erase_Associations\<close>: what \<open>erase_associations\<close> does in general, pass by pass.
  \<^item> \<open>Task_Queue\<close>: \<open>notification_queue\<close> and \<open>task_system\<close> as records, each
    member function as one atomic step under its mutex, the threads' loop
    \<^verbatim>\<open>run\<close> as \<open>worker_step\<close>, \<^verbatim>\<open>async\<close> and the destructor's \<^verbatim>\<open>done\<close> as
    \<open>client_step\<close>, and \<open>reach\<close>, the states an interleaving reaches.
  \<^item> \<open>Task_Lifecycle\<close>: the owner's side of the pool in program order: construction,
    any number of \<^verbatim>\<open>async\<close> calls, then the destructor's \<^verbatim>\<open>done\<close> on each queue in
    turn and its joins, all interleaved with the threads (\<open>lifecycle\<close>, \<open>joined\<close>).
  \<^item> \<open>Task_Test\<close>: \<^verbatim>\<open>task_test\<close> of \<^verbatim>\<open>task_algorithms.hpp\<close>, the client of the
    pool: its chunk lambdas as the record \<open>chunk_task\<close>, what each prints
    (\<open>chunk_output\<close>), and the single-threaded loop it is compared with.
  \<^item> \<open>Main_Demo\<close>: \<^verbatim>\<open>main\<close>, from building dogs and cats to the final mirrored
    state, and the element types \<^verbatim>\<open>dog\<close> and \<^verbatim>\<open>cat\<close> as datatypes with their
    \<^verbatim>\<open>operator<\<close> as a \<open>linorder\<close> instance.
  \<^item> \<open>Traits\<close>: the detection-idiom traits (\<^verbatim>\<open>is_associatable\<close>,
    \<^verbatim>\<open>is_iterable\<close>, \<^verbatim>\<open>is_container\<close>, \<^verbatim>\<open>has_field\<close>) over class types given by
    their members, and \<^verbatim>\<open>has_field_example.hpp\<close>'s constrained \<^verbatim>\<open>fun\<close>.
  \<^item> \<open>Timer\<close>: \<^verbatim>\<open>timer.hpp\<close>, with the clock readings as arguments.
  \<^item> this theory: example states, the witnesses of the theorems with hypotheses, the
    design's scenarios, and the concrete runs that show where the code departs from the
    design.

  \<^bold>\<open>What is proved.\<close>
  \<^item> \<open>visit\<close> calls its operation exactly on the stored elements linked to the foreign
    key, in key order (C1); \<open>erase_key\<close> equals a set-level specification and keeps
    \<open>ac_wf\<close> (all containers sorted) and \<open>no_dangling\<close> (invariant I2) (C2, C5);
    \<open>emplace\<close> and \<open>emplace_association\<close> are insertion into the sorted set and
    \<open>insort\<close> into the sorted table (C3, C4); erasing a new, unlinked key undoes
    \<open>emplace\<close> (C6).
  \<^item> The first pass of \<open>erase_associations\<close> never erases an element with two or more
    links that are all in the set, because its count is taken on the buffer
    \<^verbatim>\<open>std::remove_if\<close> is compacting (C7). For every \<^verbatim>\<open>std::sort\<close> that permutes its
    input, \<open>erase_associations\<close> keeps exactly the unlisted links of surviving elements,
    keeps I2 and sortedness of the tables, reports the links of the elements it drops,
    leaves no two neighbouring elements with the same links, and removes an element only
    if all its links were listed or a survivor has the same remaining links (C8 to C12).
    Concrete runs in this theory show the failures of I1, I3 and I4 (lemmas
    \<open>erase_associations_stale_count\<close>, \<open>erase_associations_duplicates_survive\<close>,
    \<open>erase_associations_unsorted_visit\<close>, \<open>erase_associations_unsorted_emplace\<close>).
  \<^item> Thread pool: an invariant of every reachable state (every submitted task is
    executed or queued exactly once; waiting and exited threads agree with the queues'
    \<^verbatim>\<open>finished\<close> flags) (C13); a thread returns only from an empty, finished queue
    (C14); after \<^verbatim>\<open>done\<close> the threads stop within \<open>work_left\<close> steps (C15); in
    every run of the owner's program the destructor's joins can return with every
    submitted task run (C16), and while it runs exactly the queues it has reached are
    finished and no thread leaves tasks behind (C17); only the owner's calls wake a
    waiting thread (C18); \<^verbatim>\<open>async\<close> on zero threads divides by zero (C19), its
    round robin breaks at the 32-bit wrap unless the thread count divides 2^32 (C20), it
    queues the task once, at the queue it first locks or, failing that, with
    \<^verbatim>\<open>push\<close> and without waking anyone (C21 to C23).
  \<^item> \<^verbatim>\<open>emplace_associations\<close> keeps two instances mirrored (C24); the values
    \<^verbatim>\<open>main\<close> prints are computed in \<open>main_run_output\<close>; a flat set of dogs, ordered by
    the struct's \<^verbatim>\<open>operator<\<close>, is the flat set of their keys, which is why elements
    can be modelled by keys (\<open>dog_store_is_key_store\<close>).
  \<^item> The pool and its client together: after \<^verbatim>\<open>task_test\<close> has submitted its five
    chunks and the destructor has finished the queues, the threads can all return and
    the pool prints each number the single-threaded loop prints, exactly once (C25).
  \<^item> Calgo: the in-place \<^verbatim>\<open>erase_if\<close> and \<^verbatim>\<open>erase_duplicates\<close> equal \<open>filter\<close>
    and \<open>remdups_adj\<close> (C26, C27); \<^verbatim>\<open>unique_transform\<close> and \<^verbatim>\<open>unique_copy\<close> write
    the container without repeated neighbours (C28, C29); \<^verbatim>\<open>front_inserter\<close> prepends
    in order, being \<^verbatim>\<open>std::inserter\<close> at the front and not
    \<^verbatim>\<open>std::front_inserter\<close> (C30); \<^verbatim>\<open>set_intersection\<close> and
    \<^verbatim>\<open>triangle_product\<close> compute what their names say (C31, C32);
    \<^verbatim>\<open>erase_if_found\<close> is undefined when nothing matches (C33). Without claims of
    their own: \<^verbatim>\<open>back_inserter\<close> appends, a flat set written through an inserter is
    the set insertion of every value, and \<^verbatim>\<open>triangle_product\<close> makes n (n - 1) / 2
    calls.
  \<^item> Traits and timer: \<^verbatim>\<open>dog\<close> and \<^verbatim>\<open>cat\<close> pass \<^verbatim>\<open>is_associatable\<close>, the flat
    containers \<^verbatim>\<open>is_container\<close>, which implies \<^verbatim>\<open>is_iterable\<close>; \<^verbatim>\<open>fun\<close> accepts
    \<^verbatim>\<open>test\<close> and squares its field; a \<^verbatim>\<open>timer\<close> prints the difference of two
    \<^verbatim>\<open>system_clock\<close> readings, negative when the wall clock is set back.

  \<^bold>\<open>Bounds and choices.\<close> Every loop of the code is a \<^theory_text>\<open>fun\<close> on the number of
  iterations left or a \<^theory_text>\<open>function\<close> with a measure (the length left to scan, the
  binary-search window), so no fuel is needed; the threads' endless loop is a step
  relation, whose termination after \<^verbatim>\<open>done\<close> is C20. \<^verbatim>\<open>std::sort\<close> is a parameter of
  \<open>erase_associations\<close> because its comparator there is not a strict weak ordering;
  concrete runs use \<open>std_insertion_sort\<close>, exact for the at most 16 elements they
  sort. \<^verbatim>\<open>flat_multimap::count\<close> is modelled by its specification (the number of
  entries with the key), also while \<^verbatim>\<open>std::remove_if\<close> has left the buffer partly
  compacted. The pool's \<^verbatim>\<open>unsigned\<close> values are 32-bit words; whether a
  \<^verbatim>\<open>try_to_lock\<close> succeeds is an argument of the step, so the theorems hold for every
  pattern of lock contention; spurious wake-ups are not steps (the standard allows but
  never promises them). Dog keys \<^verbatim>\<open>tuple<int, float>\<close> are integer pairs: their
  floats are 0 and 1.

  \<^bold>\<open>Not modelled.\<close> The output operators and the \<^verbatim>\<open>std::cout\<close> statements of
  \<^verbatim>\<open>main\<close> (the values they print are modelled, their formatting is not), the sleeps of
  \<^verbatim>\<open>task_test\<close> (they only take time), the capacity effect of \<^verbatim>\<open>reserve\<close>, what a
  task does when it runs beyond what it prints, IEEE rounding of the \<^verbatim>\<open>double\<close>
  product in \<^verbatim>\<open>fun\<close> (modelled over any type with a product), \<^verbatim>\<open>calgo::overload\<close>
  (C++ overload resolution; \<^verbatim>\<open>visit\<close>'s two comparators are passed separately), and
  the container overloads of \<^verbatim>\<open>set_intersection\<close>, which only pass
  \<^verbatim>\<open>begin()\<close>/\<^verbatim>\<open>end()\<close> and coincide with the iterator versions when containers
  are lists. A compile-time trait is modelled by the members of a class type, listed by
  hand from the source.
\<close>

section \<open>Example states\<close>

text \<open>The design's first scenario: elements 1, 2, 3 linked to A, B, A.\<close>

definition ex_spec :: "(nat, char) ac" where
  "ex_spec =
     emplace_association 3 CHR ''A'' (emplace_association 2 CHR ''B'' (emplace_association 1 CHR ''A''
       (emplace 3 (emplace 2 (emplace 1 empty_collection)))))"

text \<open>
  Elements whose keys are pairs (as \<^verbatim>\<open>erase(inverse_foreign_type)\<close> needs, see
  \<open>association_order\<close>), linked to foreign keys A, B, C.
\<close>

definition ex_two_links :: "(nat \<times> nat, char) ac" where
  "ex_two_links =
     emplace_association (2, 0) CHR ''C'' (emplace_association (1, 0) CHR ''B''
       (emplace_association (1, 0) CHR ''A'' (emplace (2, 0) (emplace (1, 0) empty_collection))))"

definition ex_dup :: "(nat \<times> nat, char) ac" where
  "ex_dup =
     emplace_association (4, 0) CHR ''B'' (emplace_association (3, 0) CHR ''C''
       (emplace_association (2, 0) CHR ''B'' (emplace_association (1, 0) CHR ''A''
         (emplace (4, 0) (emplace (3, 0) (emplace (2, 0) (emplace (1, 0) empty_collection)))))))"

definition ex_three :: "(nat \<times> nat, char) ac" where
  "ex_three =
     emplace_association (3, 0) CHR ''A'' (emplace_association (2, 0) CHR ''B''
       (emplace_association (1, 0) CHR ''A''
         (emplace (3, 0) (emplace (2, 0) (emplace (1, 0) empty_collection)))))"

text \<open>The design's second scenario: X and Y both linked to A and B.\<close>

definition ex_xy :: "(nat \<times> nat, char) ac" where
  "ex_xy =
     emplace_association (2, 0) CHR ''B'' (emplace_association (2, 0) CHR ''A''
       (emplace_association (1, 0) CHR ''B'' (emplace_association (1, 0) CHR ''A''
         (emplace (2, 0) (emplace (1, 0) empty_collection)))))"

text \<open>
  A one-thread pool holding task 5 whose queue is finished, and the two passes of
  \<^verbatim>\<open>run\<close> that empty it: the first runs the task, the second returns.
\<close>

definition busy_pool :: "nat task_system" where
  "busy_pool = done_at 0 (projr (async (\<lambda>_. True) 5 (init_ts 1 1)))"

text \<open>
  The pool of \<^verbatim>\<open>task_test\<close> with one queue: the 5 tasks submitted, then the queue finished.
\<close>

definition task_test_pool :: "chunk_task task_system" where
  "task_test_pool =
     done_at 0 (foldl (\<lambda>s t. projr (async (\<lambda>_. True) t s)) (init_ts 1 48) task_test_tasks)"

definition busy_pool_ran :: "nat task_system" where
  "busy_pool_ran = run_iteration (\<lambda>_. True) 0 busy_pool"

definition busy_pool_exited :: "nat task_system" where
  "busy_pool_exited = run_iteration (\<lambda>_. True) 0 busy_pool_ran"

text \<open>
  Two threads, the first waiting on its empty queue, the second about to run; and a
  three-thread pool whose index is at the 32-bit wrap.
\<close>

definition two_waiting_pool :: "nat task_system" where
  "two_waiting_pool = run_iteration (\<lambda>_. True) 0 (init_ts 2 48)"

definition two_waiting_pool_ran :: "nat task_system" where
  "two_waiting_pool_ran = run_iteration (\<lambda>_. True) 1 two_waiting_pool"


section \<open>Witnesses of the component theorems\<close>

text \<open>Claim C1 applied: visiting A in the first scenario calls the operation on 1 and 3.\<close>

theorem visit_correct_witness: "ac_wf ex_spec \<and> visit CHR ''A'' ex_spec = [1, 3]"
proof -
  have wf: "ac_wf ex_spec" by code_simp
  have "visit CHR ''A'' ex_spec =
        filter (\<lambda>e. (e, CHR ''A'') \<in> set (associations ex_spec)) (collection ex_spec)"
    by (rule visit_correct [OF wf])
  also have "\<dots> = [1, 3]" by code_simp
  finally show ?thesis using wf by simp
qed

theorem erase_key_eq_spec_witness:
  "ac_wf ex_spec \<and> erase_key 2 ex_spec = erase_key_spec 2 ex_spec"
proof -
  have wf: "ac_wf ex_spec" by code_simp
  show ?thesis using wf erase_key_eq_spec [OF wf, of 2] by simp
qed

theorem emplace_association_insort_witness:
  "sorted (associations ex_spec) \<and>
   associations (emplace_association 2 CHR ''A'' ex_spec) = insort (2, CHR ''A'') (associations ex_spec)"
proof -
  have s: "sorted (associations ex_spec)" by code_simp
  show ?thesis using s emplace_association_insort [OF s, of 2 "CHR ''A''"] by simp
qed

theorem emplace_collection_witness:
  "sorted_wrt (<) (collection ex_spec) \<and>
   collection (emplace 4 ex_spec) = sorted_list_of_set (insert 4 (set (collection ex_spec)))"
proof -
  have s: "sorted_wrt (<) (collection ex_spec)" by code_simp
  show ?thesis using s emplace_collection [OF s, of 4] by simp
qed

theorem erase_key_invariants_witness:
  "ac_wf ex_spec \<and> no_dangling ex_spec \<and> ac_wf (erase_key 2 ex_spec) \<and> no_dangling (erase_key 2 ex_spec)"
proof -
  have wf: "ac_wf ex_spec" by code_simp
  have nd: "no_dangling ex_spec" by code_simp
  show ?thesis using wf nd erase_key_invariants [OF wf nd, of 2] by simp
qed

text \<open>Claims C8 to C12 applied to the second scenario, erasing no link, with libstdc++'s sort.\<close>

theorem erase_associations_links_witness:
  "ac_wf ex_two_links \<and> no_dangling ex_two_links \<and>
   associations (erase_associations std_insertion_sort [((1, 0), CHR ''A'')] ex_two_links) =
     filter (\<lambda>a. a \<notin> set [((1, 0), CHR ''A'')] \<and>
       fst a \<in> set (collection (erase_associations std_insertion_sort [((1, 0), CHR ''A'')] ex_two_links)))
       (associations ex_two_links)"
proof -
  have wf: "ac_wf ex_two_links" and nd: "no_dangling ex_two_links" by code_simp+
  show ?thesis using wf nd erase_associations_links [where srt = std_insertion_sort and S = "[((1, 0), CHR ''A'')]" and st = ex_two_links,
    OF wf nd mset_std_insertion_sort] by simp
qed

theorem erase_associations_invariants_witness:
  "ac_wf ex_xy \<and> no_dangling ex_xy \<and>
   no_dangling (erase_associations std_insertion_sort [] ex_xy) \<and>
   links_wf (erase_associations std_insertion_sort [] ex_xy) \<and>
   distinct (collection (erase_associations std_insertion_sort [] ex_xy)) \<and>
   set (collection (erase_associations std_insertion_sort [] ex_xy)) \<subseteq> set (collection ex_xy)"
proof -
  have wf: "ac_wf ex_xy" and nd: "no_dangling ex_xy" by code_simp+
  show ?thesis using wf nd erase_associations_invariants [where srt = std_insertion_sort and S = "[]" and st = ex_xy,
    OF wf nd mset_std_insertion_sort] by simp
qed

theorem erase_associations_reports_witness:
  "ac_wf ex_xy \<and> no_dangling ex_xy \<and>
   set (foreign_keys (erase_associations std_insertion_sort [] ex_xy)) = set (foreign_keys ex_xy) \<union>
     reverse ` {a \<in> set (associations ex_xy). a \<notin> set [] \<and>
       fst a \<notin> set (collection (erase_associations std_insertion_sort [] ex_xy))}"
proof -
  have wf: "ac_wf ex_xy" and nd: "no_dangling ex_xy" by code_simp+
  show ?thesis using wf nd erase_associations_reports [where srt = std_insertion_sort and S = "[]" and st = ex_xy,
    OF wf nd mset_std_insertion_sort] by simp
qed

theorem erase_associations_adjacent_witness:
  "ac_wf ex_dup \<and> no_dangling ex_dup \<and>
   successively (\<lambda>a b. \<not> same_links (associations (erase_associations std_insertion_sort [] ex_dup)) a b)
     (collection (erase_associations std_insertion_sort [] ex_dup))"
proof -
  have wf: "ac_wf ex_dup" and nd: "no_dangling ex_dup" by code_simp+
  show ?thesis using wf nd erase_associations_adjacent [where srt = std_insertion_sort and S = "[]" and st = ex_dup,
    OF wf nd mset_std_insertion_sort] by simp
qed

theorem erase_associations_justified_witness:
  "ac_wf ex_xy \<and> no_dangling ex_xy \<and>
   collection (erase_associations std_insertion_sort [] ex_xy) = [(2, 0)] \<and>
   same_links (associations ex_xy) (1, 0) (2, 0)"
proof -
  have wf: "ac_wf ex_xy" and nd: "no_dangling ex_xy" by code_simp+
  have coll: "collection (erase_associations std_insertion_sort [] ex_xy) = [(2, 0)]" by code_simp
  have gone: "(1, 0) \<in> set (collection ex_xy)" and linked: "((1, 0), CHR ''A'') \<in> set (associations ex_xy)"
    by code_simp+
  have "(\<forall>a\<in>set (associations ex_xy). fst a = (1, 0) \<longrightarrow> a \<in> set []) \<or>
        (\<exists>k'\<in>set [(2::nat, 0::nat)]. same_links (filter (\<lambda>a. a \<notin> set []) (associations ex_xy)) (1, 0) k')"
    using erase_associations_justified [where srt = std_insertion_sort and S = "[]" and st = ex_xy,
      OF wf nd mset_std_insertion_sort] gone coll by simp
  then show ?thesis using wf nd coll linked by auto
qed

text \<open>Claims C13 to C23 applied to small pools.\<close>

theorem ts_inv_reach_witness: "reach 1 1 lost_wakeup_state \<and> ts_inv lost_wakeup_state"
  using ts_inv_reach [OF reach_lost_wakeup_state] reach_lost_wakeup_state by simp

lemma busy_pool_steps:
  "worker_step busy_pool busy_pool_ran" "worker_step busy_pool_ran busy_pool_exited"
proof -
  have "workers busy_pool = [Idle]" "workers busy_pool_ran = [Idle]" by code_simp+
  then show "worker_step busy_pool busy_pool_ran" "worker_step busy_pool_ran busy_pool_exited"
    unfolding busy_pool_ran_def busy_pool_exited_def by (auto intro: worker_step.run)
qed

theorem worker_exit_drained_witness:
  "ts_inv busy_pool_ran \<and> workers busy_pool_ran ! 0 = Idle \<and> workers busy_pool_exited ! 0 = Exited \<and>
   queue (notifications busy_pool_ran ! 0) = [] \<and> finished (notifications busy_pool_ran ! 0)"
proof -
  have inv: "ts_inv busy_pool_ran" by code_simp
  have w: "workers busy_pool_ran ! 0 = Idle" "workers busy_pool_exited ! 0 = Exited" by code_simp+
  have "0 < length (workers busy_pool_ran)" by code_simp
  then show ?thesis
    using worker_exit_drained [OF busy_pool_steps(2) inv, of 0] inv w by simp
qed

theorem join_bound_witness:
  "ts_inv busy_pool \<and> list_all finished (notifications busy_pool) \<and>
   (worker_step ^^ 2) busy_pool busy_pool_exited \<and> 2 \<le> work_left busy_pool"
proof -
  have inv: "ts_inv busy_pool" and fin: "list_all finished (notifications busy_pool)" by code_simp+
  have steps: "(worker_step ^^ 2) busy_pool busy_pool_exited"
    using busy_pool_steps by (auto simp: numeral_2_eq_2 relpowp_Suc_I2 intro: relpowp_Suc_I)
  show ?thesis using join_bound [OF steps inv fin] inv fin steps by simp
qed

lemma busy_pool_lifecycle: "lifecycle 1 1 1 busy_pool"
proof -
  have l0: "lifecycle 1 1 0 (projr (async (\<lambda>_. True) (5::nat) (init_ts 1 1)))"
    using lifecycle_asyncs [OF lifecycle.construct, of 1 1 "\<lambda>_. True" "[5::nat]"] by simp
  have "0 < length (notifications (projr (async (\<lambda>_. True) (5::nat) (init_ts 1 1))))" by code_simp
  then show ?thesis using lifecycle.finish [OF l0] by (simp add: busy_pool_def)
qed

theorem destructor_progress_witness:
  "lifecycle 1 1 1 busy_pool \<and> ts_inv busy_pool \<and> drained_exits busy_pool \<and>
   map finished (notifications busy_pool) = [True]"
  using destructor_progress [OF busy_pool_lifecycle] busy_pool_lifecycle by simp

theorem destructor_joins_witness:
  "lifecycle 1 1 (unat 1) busy_pool \<and>
   (\<exists>s'. worker_step\<^sup>*\<^sup>* busy_pool s' \<and> joined s' \<and> mset (executed s') = mset (submitted s'))"
  using destructor_joins [of 1 1 busy_pool] busy_pool_lifecycle by simp

theorem async_error_witness:
  "async (\<lambda>_. True) (1::nat) (init_ts 0 48) = Inl Division_by_zero \<and>
   (\<exists>s'. async (\<lambda>_. True) (1::nat) (init_ts 2 48) = Inr s')"
  using async_error [of "init_ts 0 48" "\<lambda>_. True" "1::nat"] async_error [of "init_ts 2 48" "\<lambda>_. True" "1::nat"]
  by (simp add: init_ts_def)

theorem async_enqueues_once_witness:
  "ts_inv (init_ts 2 48 :: nat task_system) \<and>
   async (\<lambda>_. True) (1::nat) (init_ts 2 48) = Inr (projr (async (\<lambda>_. True) (1::nat) (init_ts 2 48))) \<and>
   mset (concat (map queue (notifications (projr (async (\<lambda>_. True) (1::nat) (init_ts 2 48)))))) = {#1#}"
proof -
  have inv: "ts_inv (init_ts 2 48 :: nat task_system)" by (rule ts_inv_init)
  have a: "async (\<lambda>_. True) (1::nat) (init_ts 2 48) = Inr (projr (async (\<lambda>_. True) (1::nat) (init_ts 2 48)))"
    by code_simp
  show ?thesis using async_enqueues_once [OF inv a] inv a by (simp add: init_ts_def empty_queue_def)
qed

theorem async_first_try_witness:
  "async (\<lambda>_. True) (1::nat) (init_ts 2 48) = Inr (projr (async (\<lambda>_. True) (1::nat) (init_ts 2 48))) \<and>
   count_ts (init_ts 2 48 :: nat task_system) * k_bound (init_ts 2 48 :: nat task_system) \<noteq> 0 \<and>
   notifications (projr (async (\<lambda>_. True) (1::nat) (init_ts 2 48))) =
     [\<lparr>queue = [1], finished = False\<rparr>, \<lparr>queue = [], finished = False\<rparr>]"
proof -
  have a: "async (\<lambda>_. True) (1::nat) (init_ts 2 48) = Inr (projr (async (\<lambda>_. True) (1::nat) (init_ts 2 48)))"
    by code_simp
  have c: "count_ts (init_ts 2 48 :: nat task_system) * k_bound (init_ts 2 48 :: nat task_system) \<noteq> 0"
    by (simp add: init_ts_def)
  have n: "notifications (init_ts 2 48 :: nat task_system) =
      [\<lparr>queue = [], finished = False\<rparr>, \<lparr>queue = [], finished = False\<rparr>]"
    "index (init_ts 2 48 :: nat task_system) = 0" "count_ts (init_ts 2 48 :: nat task_system) = 2"
    by code_simp+
  show ?thesis using async_first_try [OF a _ c] a c n by simp
qed

theorem async_push_fallback_witness:
  "async (\<lambda>_. False) 7 waiting_pool = Inr lost_wakeup_state \<and>
   workers lost_wakeup_state = workers waiting_pool \<and>
   notifications lost_wakeup_state = [\<lparr>queue = [7], finished = False\<rparr>]"
proof -
  have a: "async (\<lambda>_. False) 7 waiting_pool = Inr lost_wakeup_state" by code_simp
  have n: "notifications waiting_pool = [\<lparr>queue = [], finished = False\<rparr>]" "index waiting_pool = 0"
    "count_ts waiting_pool = 1" by code_simp+
  show ?thesis using async_push_fallback [OF a] a n by simp
qed

theorem emplace_associations_mirrored_witness:
  "mirrored (fst main_setup) (snd main_setup) \<and>
   mirrored (fst (emplace_associations (4, 0) (CHR ''z'', 9) (fst main_setup) (snd main_setup)))
     (snd (emplace_associations (4, 0) (CHR ''z'', 9) (fst main_setup) (snd main_setup)))"
proof -
  have m: "mirrored (fst main_setup) (snd main_setup)" "sorted (associations (fst main_setup))"
    "sorted (associations (snd main_setup))" by code_simp+
  show ?thesis using emplace_associations_mirrored [OF m] m(1) by simp
qed

theorem set_intersection_sorted_witness:
  "sorted_wrt (<) [1, 3, 5 :: nat] \<and> sorted_wrt (<) [2, 3, 4, 5 :: nat] \<and>
   set_intersection [1, 3, 5 :: nat] [2, 3, 4, 5] = [3, 5]"
proof -
  have s: "sorted_wrt (<) [1, 3, 5 :: nat]" "sorted_wrt (<) [2, 3, 4, 5 :: nat]" by simp_all
  show ?thesis using set_intersection_sorted [OF s] s by simp
qed

section \<open>The design's scenarios\<close>

text \<open>
  A concrete run: in the first scenario of the design, visiting A calls the operation on
  elements 1 and 3 and not on 2; erasing element 2 reports the pair (B, 2) and leaves
  the elements 1 and 3 with their links.
\<close>

theorem spec_scenario_visit_erase:
  "visit CHR ''A'' ex_spec = [1, 3] \<and>
   foreign_keys (erase_key 2 ex_spec) = [(CHR ''B'', 2)] \<and>
   collection (erase_key 2 ex_spec) = [1, 3] \<and>
   associations (erase_key 2 ex_spec) = [(1, CHR ''A''), (3, CHR ''A'')]"
  by code_simp

text \<open>
  A concrete run: in the design's second scenario, erasing the empty set of links collapses
  X and Y, which have the same links, into one survivor, and reports the dropped
  element's links reversed.
\<close>

theorem spec_scenario_collapse:
  "collection (erase_associations std_insertion_sort [] ex_xy) = [(2, 0)] \<and>
   associations (erase_associations std_insertion_sort [] ex_xy) = [((2, 0), CHR ''A''), ((2, 0), CHR ''B'')] \<and>
   foreign_keys (erase_associations std_insertion_sort [] ex_xy) = [(CHR ''A'', (1, 0)), (CHR ''B'', (1, 0))]"
  by code_simp

section \<open>Where the code departs from the design\<close>

text \<open>
  A concrete run: erasing both links of element (1, 0) in one call leaves the element stored
  with no association at all (invariant I3 fails), and reports nothing. The first pass
  reads \<^verbatim>\<open>associations_.count((1,0))\<close> while \<^verbatim>\<open>std::remove_if\<close> is running: for the
  second link it still counts the first, already removed one, so the count is 2, not 1.
\<close>

theorem erase_associations_stale_count:
  "erase_associations std_insertion_sort [((1, 0), CHR ''A''), ((1, 0), CHR ''B'')] ex_two_links =
   ex_two_links\<lparr>associations := [((2, 0), CHR ''C'')]\<rparr> \<and>
   collection ex_two_links = [(1, 0), (2, 0)] \<and> foreign_keys ex_two_links = []"
  by code_simp

text \<open>
  A concrete run: two elements with the same links, (2, 0) and (4, 0), both survive the
  collapse pass (invariant I4 fails): the sort's comparator orders them by key
  components, not by their links, so they are not adjacent when duplicates are removed.
\<close>

theorem erase_associations_duplicates_survive:
  "collection (erase_associations std_insertion_sort [] ex_dup) = [(1, 0), (2, 0), (3, 0), (4, 0)] \<and>
   compare_associations (2, 0) (4, 0) (erase_associations std_insertion_sort [] ex_dup)"
  by code_simp

text \<open>
  A concrete run: after the collapse pass the element store is no longer sorted, and
  \<open>visit\<close> then misses an element linked to the foreign key: (2, 0) is linked to B
  but is not visited.
\<close>

theorem erase_associations_unsorted_visit:
  "collection (erase_associations std_insertion_sort [] ex_three) = [(3, 0), (2, 0)] \<and>
   ((2, 0), CHR ''B'') \<in> set (associations (erase_associations std_insertion_sort [] ex_three)) \<and>
   visit CHR ''B'' (erase_associations std_insertion_sort [] ex_three) = []"
  by code_simp

text \<open>
  A concrete run: on that unsorted store \<open>emplace\<close> inserts a key that is already stored,
  so the store holds (2, 0) twice (invariant I1 fails).
\<close>

theorem erase_associations_unsorted_emplace:
  "collection (emplace (2, 0) (erase_associations std_insertion_sort [] ex_three)) = [(2, 0), (3, 0), (2, 0)]"
  by code_simp

theorem erase_key_emplace_roundtrip_witness:
  "ac_wf ex_spec \<and> 4 \<notin> set (collection ex_spec) \<and> list_all (\<lambda>a. fst a \<noteq> 4) (associations ex_spec) \<and>
   list_all (\<lambda>c. fst c \<noteq> 4) (contributors ex_spec) \<and> erase_key 4 (emplace 4 ex_spec) = ex_spec"
proof -
  have wf: "ac_wf ex_spec" and k: "4 \<notin> set (collection ex_spec)"
    and a: "list_all (\<lambda>a. fst a \<noteq> 4) (associations ex_spec)"
    and c: "list_all (\<lambda>c. fst c \<noteq> 4) (contributors ex_spec)" by code_simp+
  show ?thesis
    using erase_key_emplace_roundtrip [OF wf k] wf k a c by (simp add: list_all_iff)
qed

theorem dog_store_is_key_store_witness:
  "sorted [Dog (1, 0), Dog (3, 0)] \<and>
   map key_dog (flat_set_insert (Dog (2, 0)) [Dog (1, 0), Dog (3, 0)]) = [(1, 0), (2, 0), (3, 0)]"
proof -
  have s: "sorted [Dog (1, 0), Dog (3, 0)]" by (simp add: less_eq_dog_def less_dog_def dog_less_def)
  have "flat_set_insert (2, 0) [(1, 0), (3, 0)] = [(1::int, 0::int), (2, 0), (3, 0)]" by code_simp
  then show ?thesis using dog_store_is_key_store [OF s, of "Dog (2, 0)"] s by simp
qed

lemma task_test_pool_lifecycle: "lifecycle 1 48 1 task_test_pool"
proof -
  let ?s = "foldl (\<lambda>s t. projr (async (\<lambda>_. True) t s)) (init_ts 1 48) task_test_tasks"
  have l0: "lifecycle 1 48 0 ?s" by (rule lifecycle_asyncs [OF lifecycle.construct]) simp
  have "0 < length (notifications ?s)" by code_simp
  then show ?thesis using lifecycle.finish [OF l0] by (simp add: task_test_pool_def)
qed

theorem task_test_outputs_all_witness:
  "lifecycle 1 48 (unat 1) task_test_pool \<and> submitted task_test_pool = task_test_tasks \<and>
   (\<exists>s'. worker_step\<^sup>*\<^sup>* task_test_pool s' \<and> joined s' \<and>
      mset (concat (map chunk_output (executed s'))) = mset (single_threaded_output task_test_total))"
proof -
  have sub: "submitted task_test_pool = task_test_tasks" by code_simp
  show ?thesis using task_test_outputs_all [of 1 48 task_test_pool] task_test_pool_lifecycle sub by simp
qed

theorem erase_links_stale_count_witness:
  "associations ex_two_links = [((1, 0), CHR ''A''), ((1, 0), CHR ''B''), ((2, 0), CHR ''C'')] \<and>
   (1, 0) \<in> set (collection ex_two_links) \<and>
   (1, 0) \<in> set (collection (fst (erase_if (erase_links_pred [((1, 0), CHR ''A''), ((1, 0), CHR ''B'')])
      ex_two_links (associations ex_two_links)))) \<and>
   count_key (1, 0) (snd (erase_if (erase_links_pred [((1, 0), CHR ''A''), ((1, 0), CHR ''B'')])
      ex_two_links (associations ex_two_links))) = 0"
proof -
  have a: "associations ex_two_links = [((1, 0), CHR ''A''), ((1, 0), CHR ''B''), ((2, 0), CHR ''C'')]"
    by code_simp
  have c: "(1, 0) \<in> set (collection ex_two_links)" by code_simp
  have s: "sorted (associations ex_two_links)" by code_simp
  have n: "2 \<le> count_key (1, 0) (associations ex_two_links)" using a by simp
  have l: "\<forall>x\<in>set (associations ex_two_links). fst x = (1, 0) \<longrightarrow> x \<in> set [((1, 0), CHR ''A''), ((1, 0), CHR ''B'')]"
    using a by simp
  show ?thesis using erase_links_stale_count [OF s n l c] a c by simp
qed

theorem waiting_needs_owner_witness:
  "ts_inv two_waiting_pool \<and> workers two_waiting_pool ! 0 = Waiting \<and>
   worker_step\<^sup>*\<^sup>* two_waiting_pool two_waiting_pool_ran \<and> workers two_waiting_pool_ran ! 0 = Waiting"
proof -
  have inv: "ts_inv two_waiting_pool" and w: "workers two_waiting_pool ! 0 = Waiting"
    and i: "workers two_waiting_pool ! 1 = Idle" and l: "1 < length (workers two_waiting_pool)" by code_simp+
  have "worker_step two_waiting_pool two_waiting_pool_ran"
    unfolding two_waiting_pool_ran_def by (rule worker_step.run [OF l i])
  then have r: "worker_step\<^sup>*\<^sup>* two_waiting_pool two_waiting_pool_ran" by (rule r_into_rtranclp)
  show ?thesis using waiting_needs_owner [OF r inv w] inv w r by simp
qed


end
